theory Spec2Isabelle
  imports Main
begin

section \<open>Relations, constraints and the relation library\<close>

text \<open>
  The memory-hierarchy engine of \<^verbatim>\<open>cuda.c\<close> works on integer relations that it obtains
  from a relation library.  A relation is modelled by its points: a triple of a parameter
  valuation, a domain element and a range tuple.  Access relations of the source program
  have statement instances as domain elements (type \<open>'x\<close>); once a schedule has been
  applied the domain elements are coordinate tuples.
\<close>

type_synonym 'x isl_union_map = "(int list \<times> 'x \<times> int list) set"

type_synonym isl_map = "(int list \<times> int list \<times> int list) set"

text \<open>
  A \<^verbatim>\<open>NULL\<close> relation is \<open>None\<close>.  The library propagates \<^verbatim>\<open>NULL\<close> through its
  operations and answers \<open>-1\<close> to a test on \<^verbatim>\<open>NULL\<close>.
\<close>

definition isl_map_intersect :: "'a set option \<Rightarrow> 'a set option \<Rightarrow> 'a set option" where
  "isl_map_intersect a b =
     (case a of None \<Rightarrow> None
      | Some x \<Rightarrow> (case b of None \<Rightarrow> None | Some y \<Rightarrow> Some (x \<inter> y)))"

definition isl_map_union :: "'a set option \<Rightarrow> 'a set option \<Rightarrow> 'a set option" where
  "isl_map_union a b =
     (case a of None \<Rightarrow> None
      | Some x \<Rightarrow> (case b of None \<Rightarrow> None | Some y \<Rightarrow> Some (x \<union> y)))"

definition isl_map_is_empty :: "'a set option \<Rightarrow> int" where
  "isl_map_is_empty m = (case m of None \<Rightarrow> - 1 | Some x \<Rightarrow> (if x = {} then 1 else 0))"

definition isl_union_map_apply_domain ::
  "(int list \<times> 'x \<times> 'b) set \<Rightarrow> (int list \<times> 'x \<times> 'c) set \<Rightarrow> (int list \<times> 'c \<times> 'b) set" where
  "isl_union_map_apply_domain r s =
     (\<Union>(p, x, a)\<in>r. (\<lambda>(p', x', c). (p, c, a)) ` {t \<in> s. fst t = p \<and> fst (snd t) = x})"

definition isl_map_apply_range ::
  "(int list \<times> 'a \<times> 'b) set \<Rightarrow> (int list \<times> 'b \<times> 'c) set \<Rightarrow> (int list \<times> 'a \<times> 'c) set" where
  "isl_map_apply_range r s =
     (\<Union>(p, x, a)\<in>r. (\<lambda>(p', a', c). (p, x, c)) ` {t \<in> s. fst t = p \<and> fst (snd t) = a})"

definition isl_union_map_is_injective :: "(int list \<times> 'x \<times> 'b) set \<Rightarrow> bool" where
  "isl_union_map_is_injective r =
     (\<forall>t\<in>r. \<forall>u\<in>r. fst t = fst u \<and> snd (snd t) = snd (snd u) \<longrightarrow> fst (snd t) = fst (snd u))"

definition isl_map_is_single_valued :: "(int list \<times> 'x \<times> 'b) set \<Rightarrow> bool" where
  "isl_map_is_single_valued r =
     (\<forall>t\<in>r. \<forall>u\<in>r. fst t = fst u \<and> fst (snd t) = fst (snd u) \<longrightarrow> snd (snd t) = snd (snd u))"

definition isl_map_is_bijective :: "(int list \<times> 'x \<times> 'b) set \<Rightarrow> bool" where
  "isl_map_is_bijective r = (isl_map_is_single_valued r \<and> isl_union_map_is_injective r)"

text \<open>
  Projection of a relation onto range dimension \<open>i\<close>: the two \<^verbatim>\<open>isl_map_project_out\<close>
  calls of \<^verbatim>\<open>can_tile_for_shared_memory\<close>, which drop the range dimensions before and
  after \<open>i\<close>.
\<close>

definition project_onto_index :: "isl_map \<Rightarrow> nat \<Rightarrow> isl_map" where
  "project_onto_index access i = (\<lambda>(p, x, a). (p, x, [a ! i])) ` access"

subsection \<open>Constraints\<close>

text \<open>
  A constraint is an affine form over the parameters, the input and output dimensions and
  the existentially quantified variables of its space, either equal to zero or
  non-negative.  A basic map is a conjunction of constraints.
\<close>

record isl_constraint =
  is_equality :: bool
  c_constant :: int
  c_param :: "int list"
  c_in :: "int list"
  c_out :: "int list"
  c_div :: "int list"

record isl_basic_map =
  n_in :: nat
  n_out :: nat
  n_div :: nat
  constraints :: "isl_constraint list"

definition dot :: "int list \<Rightarrow> int list \<Rightarrow> int" where
  "dot cs vs = sum_list (map2 (*) cs vs)"

definition constraint_value ::
  "isl_constraint \<Rightarrow> int list \<Rightarrow> int list \<Rightarrow> int list \<Rightarrow> int list \<Rightarrow> int" where
  "constraint_value c p x y e =
     c_constant c + dot (c_param c) p + dot (c_in c) x + dot (c_out c) y + dot (c_div c) e"

definition constraint_holds ::
  "isl_constraint \<Rightarrow> int list \<Rightarrow> int list \<Rightarrow> int list \<Rightarrow> int list \<Rightarrow> bool" where
  "constraint_holds c p x y e =
     (if is_equality c then constraint_value c p x y e = 0 else 0 \<le> constraint_value c p x y e)"

definition isl_map_from_basic_map :: "isl_basic_map \<Rightarrow> isl_map" where
  "isl_map_from_basic_map bmap =
     {(p, x, y). length x = n_in bmap \<and> length y = n_out bmap \<and>
        (\<exists>e. length e = n_div bmap \<and> (\<forall>c\<in>set (constraints bmap). constraint_holds c p x y e))}"

text \<open>
  Quasi-affine expressions in the parameters and the set dimensions: the value is the
  numerator divided by the denominator, rounded up.  They stand for the
  \<^verbatim>\<open>isl_qpolynomial\<close> objects stored in a bound (\<open>lb\<close>, \<open>shift\<close>).
\<close>

record affine_expr =
  e_constant :: int
  e_param :: "int list"
  e_set :: "int list"
  e_den :: int

definition expr_value :: "affine_expr \<Rightarrow> int list \<Rightarrow> int list \<Rightarrow> int" where
  "expr_value a p x =
     - ((- (e_constant a + dot (e_param a) p + dot (e_set a) x)) div e_den a)"

datatype isl_lp_result = isl_lp_ok | isl_lp_unbounded | isl_lp_empty | isl_lp_error

text \<open>
  The operations of the relation library whose answer depends on how the library
  represents a relation are parameters of the model:
  \<^item> \<open>isl_map_simple_hull\<close>: a single conjunction of constraints containing the relation
    (after \<^verbatim>\<open>isl_map_compute_divs\<close>);
  \<^item> \<open>isl_basic_map_affine_hull\<close>: the equalities satisfied by a basic map;
  \<^item> \<open>isl_basic_map_apply_range\<close>: composition of two basic maps;
  \<^item> \<open>isl_basic_set_max\<close>: the maximum over a set of the coordinate at a position minus
    a quasi-affine expression (the objective built in \<^verbatim>\<open>compute_size_in_direction\<close>).
\<close>

record isl_library =
  isl_map_simple_hull :: "isl_map \<Rightarrow> isl_basic_map"
  isl_basic_map_affine_hull :: "isl_basic_map \<Rightarrow> isl_basic_map"
  isl_basic_map_apply_range :: "isl_basic_map \<Rightarrow> isl_basic_map \<Rightarrow> isl_basic_map"
  isl_basic_set_max :: "isl_basic_map \<Rightarrow> nat \<Rightarrow> affine_expr \<Rightarrow> isl_lp_result \<times> int"

section \<open>The bound solver\<close>

text \<open>
  \<^verbatim>\<open>struct cuda_array_bound\<close>: \<open>stride\<close>, \<open>shift\<close> and \<open>shift_map\<close> are meaningful only
  when \<open>shift\<close> is not \<^verbatim>\<open>NULL\<close>.
\<close>

record cuda_array_bound =
  b_size :: int
  b_lb :: "affine_expr option"
  b_stride :: int
  b_shift :: "affine_expr option"
  b_shift_map :: "isl_basic_map option"

definition create_bound_list :: "nat \<Rightarrow> cuda_array_bound list" where
  "create_bound_list n_index =
     replicate n_index
       \<lparr>b_size = 0, b_lb = None, b_stride = 0, b_shift = None, b_shift_map = None\<rparr>"

text \<open>
  \<^verbatim>\<open>extract_stride\<close>: from a constraint \<open>a(p) + j = g f(e)\<close> (or its negation when
  \<open>sign < 0\<close>) store \<open>g\<close> as the stride and \<open>a(p)\<close>, read off the constant and the
  parameter coefficients only, as the shift.
\<close>

definition extract_stride ::
  "isl_constraint \<Rightarrow> cuda_array_bound \<Rightarrow> int \<Rightarrow> int \<Rightarrow> cuda_array_bound" where
  "extract_stride c bound stride sign =
     (let v = (if sign < 0 then - c_constant c else c_constant c);
          qp = \<lparr>e_constant = v,
                e_param = map (\<lambda>v. if sign < 0 then - v else v) (c_param c),
                e_set = [], e_den = 1\<rparr>
      in bound\<lparr>b_stride := stride, b_shift := Some qp\<rparr>)"

definition check_stride_constraint :: "cuda_array_bound \<Rightarrow> isl_constraint \<Rightarrow> cuda_array_bound" where
  "check_stride_constraint bound c =
     (let n_div = length (c_div c);
          v = c_out c ! 0
      in if n_div \<noteq> 0 \<and> (v = 1 \<or> v = - 1) then
           (let s = sgn v;
                stride = fold (\<lambda>v stride. gcd stride v) (c_div c) 0
            in if stride \<noteq> 0 \<and> b_stride bound < stride
               then extract_stride c bound stride s
               else bound)
         else bound)"

text \<open>
  The map \<open>i \<rightarrow> (i + shift) / stride\<close> built by
  \<^verbatim>\<open>isl_basic_map_from_qpolynomial\<close> in \<^verbatim>\<open>check_stride\<close>: the single equality
  \<open>i + shift - stride * o = 0\<close>.
\<close>

definition isl_basic_map_from_qpolynomial :: "affine_expr \<Rightarrow> int \<Rightarrow> isl_basic_map" where
  "isl_basic_map_from_qpolynomial shift stride =
     \<lparr>n_in = 1, n_out = 1, n_div = 0,
      constraints = [\<lparr>is_equality = True, c_constant = e_constant shift,
                      c_param = e_param shift, c_in = [1], c_out = [- stride], c_div = []\<rparr>]\<rparr>"

definition check_stride ::
  "isl_library \<Rightarrow> cuda_array_bound \<Rightarrow> isl_basic_map \<Rightarrow> cuda_array_bound \<times> isl_basic_map" where
  "check_stride lib bound bounds =
     (let bound1 = bound\<lparr>b_stride := - 1\<rparr>;
          aff = isl_basic_map_affine_hull lib bounds;
          bound2 = fold (\<lambda>c b. check_stride_constraint b c) (constraints aff) bound1
      in if b_stride bound2 < 0 then (bound2, bounds)
         else (let shift = isl_basic_map_from_qpolynomial (the (b_shift bound2)) (b_stride bound2)
               in (bound2\<lparr>b_shift_map := Some shift\<rparr>,
                   isl_basic_map_apply_range lib bounds shift)))"

text \<open>
  \<^verbatim>\<open>compute_size_in_direction\<close> looks at one constraint of the flattened set, whose
  dimensions are the input dimensions followed by the output dimension at \<open>pos\<close>.
\<close>

definition set_coefficients :: "isl_constraint \<Rightarrow> int list" where
  "set_coefficients c = c_in c @ c_out c"

definition isl_constraint_involves_divs :: "isl_constraint \<Rightarrow> bool" where
  "isl_constraint_involves_divs c = (\<exists>v\<in>set (c_div c). v \<noteq> 0)"

text \<open>
  \<^verbatim>\<open>isl_constraint_get_bound\<close> followed by \<^verbatim>\<open>isl_aff_ceil\<close>: for a constraint
  \<open>m * i + f \<ge> 0\<close> with \<open>m > 0\<close>, the expression \<open>\<lceil>- f / m\<rceil>\<close>.
\<close>

definition isl_constraint_get_bound :: "isl_constraint \<Rightarrow> nat \<Rightarrow> affine_expr" where
  "isl_constraint_get_bound c pos =
     \<lparr>e_constant = - c_constant c,
      e_param = map uminus (c_param c),
      e_set = map uminus ((set_coefficients c)[pos := 0]),
      e_den = set_coefficients c ! pos\<rparr>"

definition compute_size_in_direction ::
  "isl_library \<Rightarrow> isl_basic_map \<Rightarrow> nat \<Rightarrow> cuda_array_bound \<Rightarrow> isl_constraint \<Rightarrow> cuda_array_bound" where
  "compute_size_in_direction lib bset pos bound c =
     (if isl_constraint_involves_divs c then bound
      else (let v = set_coefficients c ! pos
            in if 0 < v then
                 (let lb = isl_constraint_get_bound c pos;
                      (res, v) = isl_basic_set_max lib bset pos lb
                  in if res = isl_lp_ok then
                       (let v = v + 1
                        in if b_size bound < 0 \<or> v < b_size bound
                           then bound\<lparr>b_size := v, b_lb := Some lb\<rparr>
                           else bound)
                     else bound)
               else bound))"

text \<open>
  \<^verbatim>\<open>compute_array_dim_size\<close> returns \<open>0\<close> when a size was found and \<open>-1\<close> otherwise.  On a
  \<^verbatim>\<open>NULL\<close> hull the library calls do nothing and the size stays negative.
\<close>

definition compute_array_dim_size ::
  "isl_library \<Rightarrow> cuda_array_bound \<Rightarrow> isl_basic_map option \<Rightarrow> int \<times> cuda_array_bound" where
  "compute_array_dim_size lib bound bounds =
     (case bounds of
        None \<Rightarrow> (- 1, bound\<lparr>b_stride := - 1, b_size := - 1, b_lb := None\<rparr>)
      | Some bmap \<Rightarrow>
          (let (bound1, bounds1) = check_stride lib bound bmap;
               bound2 = bound1\<lparr>b_size := - 1, b_lb := None\<rparr>;
               pos = n_in bounds1;
               bound3 = fold (\<lambda>c b. compute_size_in_direction lib bounds1 pos b c)
                          (constraints bounds1) bound2
           in (if 0 \<le> b_size bound3 then 0 else - 1, bound3)))"

text \<open>
  \<^verbatim>\<open>can_tile_for_shared_memory\<close>: the loop over the array dimensions, leaving at the first
  dimension without a size.  The bounds computed so far stay in the list; the callers
  free the list when the answer is \<open>0\<close>.
\<close>

fun can_tile_dims ::
  "isl_library \<Rightarrow> isl_map option \<Rightarrow> nat list \<Rightarrow> cuda_array_bound list \<Rightarrow> int \<times> cuda_array_bound list" where
  "can_tile_dims lib access [] bounds = (1, bounds)"
| "can_tile_dims lib access (i # is) bounds =
     (let hull = map_option (\<lambda>a. isl_map_simple_hull lib (project_onto_index a i)) access;
          (r, b) = compute_array_dim_size lib (bounds ! i) hull
      in if r < 0 then (0, bounds[i := b])
         else can_tile_dims lib access is (bounds[i := b]))"

definition can_tile_for_shared_memory ::
  "isl_library \<Rightarrow> nat \<Rightarrow> isl_map option \<Rightarrow> cuda_array_bound list \<Rightarrow> int \<times> cuda_array_bound list" where
  "can_tile_for_shared_memory lib n_index access bounds =
     can_tile_dims lib access [0..<n_index] bounds"

section \<open>The reference group builder\<close>

text \<open>
  \<^verbatim>\<open>struct cuda_stmt_access\<close>, an array reference of a statement: the access relation from
  the statement instances to the array elements, the read and write flags, and the ordinal
  of the group the reference ends up in.
\<close>

record 'x cuda_stmt_access =
  ref_read :: bool
  ref_write :: bool
  ref_access :: "'x isl_union_map"
  ref_group :: int

text \<open>
  \<^verbatim>\<open>struct cuda_array_ref_group\<close>.  \<open>refs\<close> holds positions in the reference list of the
  array: while the groups are built it points at the single reference the group was
  created for, afterwards it lists all members.  \<open>g_write\<close> is the field \<^verbatim>\<open>write\<close>.
\<close>

record cuda_array_ref_group =
  nr :: nat
  access :: "isl_map option"
  g_write :: bool
  shared_bound :: "cuda_array_bound list option"
  private_bound :: "cuda_array_bound list option"
  n_ref :: nat
  refs :: "nat list"

record 'x cuda_array_info =
  n_index :: nat
  array_refs :: "'x cuda_stmt_access list"
  n_group :: int
  groups :: "cuda_array_ref_group list"

text \<open>
  \<^verbatim>\<open>populate_array_references\<close>: one singleton group per reference that is active in the
  kernel, that is, whose scheduled access relation is not empty.
\<close>

definition populate_array_references ::
  "'x cuda_stmt_access list \<Rightarrow> 'x isl_union_map \<Rightarrow> cuda_array_ref_group list" where
  "populate_array_references arefs sched =
     fold (\<lambda>i gs.
        (let map = isl_union_map_apply_domain (ref_access (arefs ! i)) sched
         in if isl_map_is_empty (Some map) \<noteq> 0 then gs
            else gs @ [\<lparr>nr = 0, access = Some map, g_write = ref_write (arefs ! i),
                        shared_bound = None, private_bound = None, n_ref = 0, refs = [i]\<rparr>]))
       [0..<length arefs] []"

text \<open>
  \<^verbatim>\<open>group_overlapping_writes\<close>.  The inner loop runs \<open>j\<close> from \<open>i - 1\<close> down to \<open>0\<close>; \<open>l\<close>
  is the group that currently holds reference \<open>i\<close>.
\<close>

type_synonym grouping = "cuda_array_ref_group list \<times> nat list \<times> int"

fun overlapping_writes_scan :: "nat \<Rightarrow> nat \<Rightarrow> grouping \<Rightarrow> nat \<times> grouping" where
  "overlapping_writes_scan 0 l (gs, leader, n_grp) = (l, gs, leader, n_grp)"
| "overlapping_writes_scan (Suc j) l (gs, leader, n_grp) =
     (if leader ! j \<noteq> j then overlapping_writes_scan j l (gs, leader, n_grp)
      else if \<not> g_write (gs ! l) \<and> \<not> g_write (gs ! j)
        then overlapping_writes_scan j l (gs, leader, n_grp)
      else if isl_map_is_empty (isl_map_intersect (access (gs ! l)) (access (gs ! j))) \<noteq> 0
        then overlapping_writes_scan j l (gs, leader, n_grp)
      else (let gs1 = gs[j := (gs ! j)\<lparr>access := isl_map_union (access (gs ! j)) (access (gs ! l)),
                                      g_write := True\<rparr>];
                gs2 = gs1[l := (gs1 ! l)\<lparr>access := None\<rparr>];
                gs3 = gs2[j := (gs2 ! j)\<lparr>n_ref := n_ref (gs2 ! j) + n_ref (gs2 ! l)\<rparr>]
            in overlapping_writes_scan j j (gs3, leader[l := j], n_grp - 1)))"

definition group_overlapping_writes ::
  "nat \<Rightarrow> cuda_array_ref_group list \<Rightarrow> nat list \<Rightarrow> grouping" where
  "group_overlapping_writes n gs leader =
     fold (\<lambda>i (gs, leader, n_grp).
        (let gs0 = gs[i := (gs ! i)\<lparr>n_ref := 1\<rparr>];
             (l, gs1, leader1, n_group1) = overlapping_writes_scan i i (gs0, leader, n_grp)
         in (gs1, leader1[i := l], n_group1)))
       [0..<n] (gs, leader, int n)"

text \<open>
  \<^verbatim>\<open>compute_group_shared_bound\<close>: the bound list is kept only when every dimension got a
  size.
\<close>

definition compute_group_shared_bound ::
  "isl_library \<Rightarrow> nat \<Rightarrow> cuda_array_ref_group \<Rightarrow> cuda_array_ref_group" where
  "compute_group_shared_bound lib n_idx g =
     (let (r, b) = can_tile_for_shared_memory lib n_idx (access g) (create_bound_list n_idx)
      in if r = 0 then g\<lparr>shared_bound := None\<rparr> else g\<lparr>shared_bound := Some b\<rparr>)"

text \<open>\<^verbatim>\<open>group_common_shared_memory_tile\<close>, inner and outer loop.\<close>

fun common_tile_scan ::
  "isl_library \<Rightarrow> nat \<Rightarrow> nat \<Rightarrow> nat \<Rightarrow> grouping \<Rightarrow> grouping" where
  "common_tile_scan lib n_idx 0 l (gs, leader, n_grp) = (gs, leader, n_grp)"
| "common_tile_scan lib n_idx (Suc j) l (gs, leader, n_grp) =
     (if leader ! j \<noteq> j then common_tile_scan lib n_idx j l (gs, leader, n_grp)
      else if shared_bound (gs ! j) = None
        then common_tile_scan lib n_idx j l (gs, leader, n_grp)
      else if isl_map_is_empty (isl_map_intersect (access (gs ! l)) (access (gs ! j))) \<noteq> 0
        then common_tile_scan lib n_idx j l (gs, leader, n_grp)
      else (let map = isl_map_union (access (gs ! l)) (access (gs ! j));
                (r, sb) = can_tile_for_shared_memory lib n_idx map (create_bound_list n_idx)
            in if r = 0 then common_tile_scan lib n_idx j l (gs, leader, n_grp)
               else (let gs1 = gs[j := (gs ! j)\<lparr>shared_bound := Some sb, access := map\<rparr>];
                         gs2 = gs1[j := (gs1 ! j)\<lparr>n_ref := n_ref (gs1 ! j) + n_ref (gs1 ! l)\<rparr>]
                     in common_tile_scan lib n_idx j j (gs2, leader[l := j], n_grp - 1))))"

function group_common_shared_memory_tile_from ::
  "isl_library \<Rightarrow> nat \<Rightarrow> nat \<Rightarrow> nat \<Rightarrow> grouping \<Rightarrow> grouping" where
  "group_common_shared_memory_tile_from lib n_idx n i (gs, leader, n_grp) =
     (if 1 < n_grp \<and> i < n then
        (if leader ! i \<noteq> i
           then group_common_shared_memory_tile_from lib n_idx n (Suc i) (gs, leader, n_grp)
         else if shared_bound (gs ! i) = None
           then group_common_shared_memory_tile_from lib n_idx n (Suc i) (gs, leader, n_grp)
         else group_common_shared_memory_tile_from lib n_idx n (Suc i)
                (common_tile_scan lib n_idx i i (gs, leader, n_grp)))
      else (gs, leader, n_grp))"
  by pat_completeness auto
termination
  by (relation "measure (\<lambda>(lib, n_idx, n, i, st). n - i)") auto

definition group_common_shared_memory_tile ::
  "isl_library \<Rightarrow> nat \<Rightarrow> nat \<Rightarrow> grouping \<Rightarrow> grouping" where
  "group_common_shared_memory_tile lib n_idx n st =
     group_common_shared_memory_tile_from lib n_idx n 0 st"

text \<open>
  \<^verbatim>\<open>extract_array_groups\<close>: one pass of pointer jumping over the leaders, then one final
  group per leader, numbered in the order of the leaders; every member reference gets
  the number of its group in its \<open>group\<close> field.
\<close>

definition compress_leaders :: "nat \<Rightarrow> nat list \<Rightarrow> nat list" where
  "compress_leaders n leader = fold (\<lambda>i ld. ld[i := ld ! (ld ! i)]) [2..<n] leader"

definition extract_array_groups ::
  "'x cuda_array_info \<Rightarrow> nat \<Rightarrow> cuda_array_ref_group list \<Rightarrow> nat list \<Rightarrow> int \<Rightarrow> 'x cuda_array_info" where
  "extract_array_groups array n gs leader0 n_grp =
     (let leader = compress_leaders n leader0;
          (j, arefs, out) =
            fold (\<lambda>i (j, arefs, out).
               if leader ! i \<noteq> i then (j, arefs, out)
               else (let members = filter (\<lambda>k. leader ! k = i) [i..<n];
                         rs = map (\<lambda>k. hd (refs (gs ! k))) members;
                         arefs1 = fold (\<lambda>r a. a[r := (a ! r)\<lparr>ref_group := int j\<rparr>]) rs arefs
                     in (Suc j, arefs1, out @ [(gs ! i)\<lparr>refs := rs, nr := j\<rparr>])))
              [0..<n] (0, array_refs array, [])
      in array\<lparr>array_refs := arefs, n_group := n_grp, groups := out\<rparr>)"

text \<open>
  \<^verbatim>\<open>group_array_references\<close>.  The leader array is allocated without being initialised;
  \<open>mem\<close> gives the contents of the fresh cells.
\<close>

definition group_array_references ::
  "isl_library \<Rightarrow> (nat \<Rightarrow> nat) \<Rightarrow> 'x cuda_array_info \<Rightarrow> 'x isl_union_map \<Rightarrow> 'x cuda_array_info" where
  "group_array_references lib mem array sched =
     (let gs = populate_array_references (array_refs array) sched;
          n = length gs;
          leader = map mem [0..<n];
          (gs1, leader1, n_group1) = group_overlapping_writes n gs leader;
          gs2 = fold (\<lambda>i gs. if leader1 ! i = i
                              then gs[i := compute_group_shared_bound lib (n_index array) (gs ! i)]
                              else gs) [0..<n] gs1;
          (gs3, leader3, n_group3) =
             group_common_shared_memory_tile lib (n_index array) n (gs2, leader1, n_group1)
      in extract_array_groups array n gs3 leader3 n_group3)"


section \<open>Tiling primitives\<close>

text \<open>
  The builders \<^verbatim>\<open>tile\<close>, \<^verbatim>\<open>wrap\<close> and \<^verbatim>\<open>next\<close> allocate constraints over a space with
  given numbers of input and output dimensions and set single coefficients.  A position
  outside the space is rejected by the library and leaves the constraint as it is, which
  is what \<open>list_update\<close> does.
\<close>

definition isl_equality_alloc :: "nat \<Rightarrow> nat \<Rightarrow> isl_constraint" where
  "isl_equality_alloc nin nout =
     \<lparr>is_equality = True, c_constant = 0, c_param = [],
      c_in = replicate nin 0, c_out = replicate nout 0, c_div = []\<rparr>"

definition isl_inequality_alloc :: "nat \<Rightarrow> nat \<Rightarrow> isl_constraint" where
  "isl_inequality_alloc nin nout =
     \<lparr>is_equality = False, c_constant = 0, c_param = [],
      c_in = replicate nin 0, c_out = replicate nout 0, c_div = []\<rparr>"

definition set_coefficient_in :: "isl_constraint \<Rightarrow> nat \<Rightarrow> int \<Rightarrow> isl_constraint" where
  "set_coefficient_in c pos v = c\<lparr>c_in := (c_in c)[pos := v]\<rparr>"

definition set_coefficient_out :: "isl_constraint \<Rightarrow> nat \<Rightarrow> int \<Rightarrow> isl_constraint" where
  "set_coefficient_out c pos v = c\<lparr>c_out := (c_out c)[pos := v]\<rparr>"

definition set_constant :: "isl_constraint \<Rightarrow> int \<Rightarrow> isl_constraint" where
  "set_constant c v = c\<lparr>c_constant := v\<rparr>"

text \<open>
  \<^verbatim>\<open>tile\<close>: the first loop copies the coordinates outside the tiled range, the second
  writes \<open>s = tile_size[i] * q + r\<close> with \<open>0 \<le> r \<le> tile_size[i] - 1\<close> for those inside.  The
  result is the basic map; \<^verbatim>\<open>isl_map_from_basic_map\<close> gives its relation.
\<close>

definition tile_copy_constraint :: "nat \<Rightarrow> nat \<Rightarrow> nat \<Rightarrow> nat \<Rightarrow> isl_constraint" where
  "tile_copy_constraint len first tile_len i =
     (let j = (if i < first then i else i + tile_len);
          k = (if i < first then i else i + 2 * tile_len);
          c = isl_equality_alloc len (len + tile_len);
          c = set_coefficient_in c j (- 1);
          c = set_coefficient_out c k 1
      in c)"

definition tile_split_constraints ::
  "nat \<Rightarrow> nat \<Rightarrow> nat \<Rightarrow> int list \<Rightarrow> nat \<Rightarrow> isl_constraint list" where
  "tile_split_constraints len first tile_len tile_size i =
     (let c = isl_equality_alloc len (len + tile_len);
          c = set_coefficient_in c (first + i) (- 1);
          c = set_coefficient_out c (first + i) (tile_size ! i);
          c = set_coefficient_out c (first + i + tile_len) 1;
          c1 = isl_inequality_alloc len (len + tile_len);
          c1 = set_coefficient_out c1 (first + i + tile_len) 1;
          c2 = isl_inequality_alloc len (len + tile_len);
          c2 = set_coefficient_out c2 (first + i + tile_len) (- 1);
          c2 = set_constant c2 (tile_size ! i - 1)
      in [c, c1, c2])"

definition tile :: "nat \<Rightarrow> nat \<Rightarrow> nat \<Rightarrow> int list \<Rightarrow> isl_basic_map" where
  "tile len first tile_len tile_size =
     \<lparr>n_in = len, n_out = len + tile_len, n_div = 0,
      constraints =
        map (tile_copy_constraint len first tile_len) [0..<len - tile_len] @
        concat (map (tile_split_constraints len first tile_len tile_size) [0..<tile_len])\<rparr>"

text \<open>
  \<^verbatim>\<open>isl_basic_map_project_out\<close> on output dimensions: the dimensions from \<open>first\<close> on,
  \<open>n\<close> of them, become existentially quantified.
\<close>

definition project_out_constraint :: "nat \<Rightarrow> nat \<Rightarrow> isl_constraint \<Rightarrow> isl_constraint" where
  "project_out_constraint first n c =
     c\<lparr>c_out := take first (c_out c) @ drop (first + n) (c_out c),
       c_div := c_div c @ take n (drop first (c_out c))\<rparr>"

definition isl_basic_map_project_out :: "isl_basic_map \<Rightarrow> nat \<Rightarrow> nat \<Rightarrow> isl_basic_map" where
  "isl_basic_map_project_out bmap first n =
     bmap\<lparr>n_out := n_out bmap - n, n_div := n_div bmap + n,
          constraints := map (project_out_constraint first n) (constraints bmap)\<rparr>"

text \<open>
  \<^verbatim>\<open>wrap\<close>: every input coordinate is copied, each wrapped coordinate \<open>s\<close> gets a remainder
  \<open>r\<close> and a quotient \<open>q\<close> with \<open>s = r + wrap_size[i] * q\<close>, and the quotients are projected
  out at the end.
\<close>

definition wrap_copy_constraint :: "nat \<Rightarrow> nat \<Rightarrow> nat \<Rightarrow> nat \<Rightarrow> isl_constraint" where
  "wrap_copy_constraint len first wrap_len i =
     (let k = (if i < first + wrap_len then i else i + 2 * wrap_len);
          c = isl_equality_alloc len (len + 2 * wrap_len);
          c = set_coefficient_in c i (- 1);
          c = set_coefficient_out c k 1
      in c)"

definition wrap_split_constraints ::
  "nat \<Rightarrow> nat \<Rightarrow> nat \<Rightarrow> int list \<Rightarrow> nat \<Rightarrow> isl_constraint list" where
  "wrap_split_constraints len first wrap_len wrap_size i =
     (let c = isl_equality_alloc len (len + 2 * wrap_len);
          c = set_coefficient_out c (first + i) (- 1);
          c = set_coefficient_out c (first + wrap_len + i) 1;
          c = set_coefficient_out c (first + 2 * wrap_len + i) (wrap_size ! i);
          c1 = isl_inequality_alloc len (len + 2 * wrap_len);
          c1 = set_coefficient_out c1 (first + wrap_len + i) 1;
          c2 = isl_inequality_alloc len (len + 2 * wrap_len);
          c2 = set_coefficient_out c2 (first + wrap_len + i) (- 1);
          c2 = set_constant c2 (wrap_size ! i - 1)
      in [c, c1, c2])"

definition wrap :: "nat \<Rightarrow> nat \<Rightarrow> nat \<Rightarrow> int list \<Rightarrow> isl_basic_map" where
  "wrap len first wrap_len wrap_size =
     isl_basic_map_project_out
       \<lparr>n_in = len, n_out = len + 2 * wrap_len, n_div = 0,
        constraints =
          map (wrap_copy_constraint len first wrap_len) [0..<len] @
          concat (map (wrap_split_constraints len first wrap_len wrap_size) [0..<wrap_len])\<rparr>
       (first + 2 * wrap_len) wrap_len"

text \<open>
  \<^verbatim>\<open>next\<close>: the map that adds one to the coordinate at \<open>pos\<close> and keeps the others.  \<open>pos\<close>
  is an \<^verbatim>\<open>int\<close> in the source and is \<open>-1\<close> when the caller has no dimension to step.
\<close>

definition next_constraint :: "nat \<Rightarrow> int \<Rightarrow> nat \<Rightarrow> isl_constraint" where
  "next_constraint len pos i =
     (let c = isl_equality_alloc len len;
          c = set_coefficient_in c i 1;
          c = set_coefficient_out c i (- 1);
          c = (if int i = pos then set_constant c 1 else c)
      in c)"

definition next_map :: "nat \<Rightarrow> int \<Rightarrow> isl_map" where
  "next_map len pos =
     isl_map_from_basic_map
       \<lparr>n_in = len, n_out = len, n_div = 0,
        constraints = map (next_constraint len pos) [0..<len]\<rparr>"

section \<open>The private-memory promotion pass\<close>

text \<open>
  The fields of \<^verbatim>\<open>struct cuda_gen\<close> the pass reads.  \<open>tiled_len\<close> is the number of
  dimensions of the range of \<open>tiled_sched\<close>.  All relations of one kernel are expressed over
  one list of parameters, so \<^verbatim>\<open>isl_map_align_params\<close> changes nothing.
\<close>

record 'x cuda_gen =
  tiled_sched :: "'x isl_union_map"
  shared_sched :: "'x isl_union_map"
  privatization :: isl_map
  tiled_len :: nat
  shared_len :: nat
  n_block :: nat

text \<open>
  \<^verbatim>\<open>group_access_relation\<close>: the union of the access relations of the member references
  that are reads (when \<open>rd\<close>) or writes (when \<open>wr\<close>).
\<close>

definition group_access_relation ::
  "'x cuda_array_info \<Rightarrow> cuda_array_ref_group \<Rightarrow> bool \<Rightarrow> bool \<Rightarrow> 'x isl_union_map" where
  "group_access_relation array g rd wr =
     fold (\<lambda>i acc.
        (let r = array_refs array ! (refs g ! i)
         in if \<not> ((rd \<and> ref_read r) \<or> (wr \<and> ref_write r)) then acc
            else acc \<union> ref_access r))
       [0..<n_ref g] {}"

definition isl_map_is_subset :: "'a set \<Rightarrow> 'a set \<Rightarrow> bool" where
  "isl_map_is_subset a b = (a \<subseteq> b)"

text \<open>
  \<^verbatim>\<open>access_is_coalesced\<close>: stepping the dimension that is wrapped over the last thread
  index steps the last array index.
\<close>

definition access_is_coalesced :: "'x cuda_gen \<Rightarrow> nat \<Rightarrow> 'x isl_union_map \<Rightarrow> bool" where
  "access_is_coalesced gen n_idx acc =
     (let access_map = isl_union_map_apply_domain acc (tiled_sched gen);
          next_thread_x = next_map (tiled_len gen) (int (shared_len gen + n_block gen) - 1);
          next_element = next_map n_idx (int n_idx - 1);
          map = isl_union_map_apply_domain next_thread_x access_map;
          map = isl_map_apply_range map access_map
      in isl_map_is_subset map next_element)"

text \<open>
  \<^verbatim>\<open>check_private_group_access\<close>.  Without reuse the group is left alone, except that a
  shared tile is dropped when the access is coalesced.  With reuse the group is given a
  private tile when the relation from the shared tile and thread loops to the array is
  bijective and the bound solver sizes the privatized relation.
\<close>

definition check_private_group_access ::
  "'x cuda_gen \<Rightarrow> isl_library \<Rightarrow> 'x cuda_array_info \<Rightarrow> cuda_array_ref_group \<Rightarrow> cuda_array_ref_group" where
  "check_private_group_access gen lib array g =
     (let n_idx = n_index array;
          acc0 = group_access_relation array g True True
      in if isl_union_map_is_injective acc0 then
           (if shared_bound g \<noteq> None \<and> access_is_coalesced gen n_idx acc0
            then g\<lparr>shared_bound := None\<rparr>
            else g)
         else
           (let acc = isl_union_map_apply_domain acc0 (shared_sched gen)
            in if \<not> isl_map_is_bijective acc then g
               else
                 (let acc1 = isl_union_map_apply_domain acc (privatization gen);
                      (r, b) = can_tile_for_shared_memory lib n_idx (Some acc1)
                                 (create_bound_list n_idx)
                  in if r = 0 then g\<lparr>private_bound := None\<rparr>
                     else g\<lparr>private_bound := Some b\<rparr>)))"

text \<open>
  The loop of \<^verbatim>\<open>compute_private_size\<close> over the groups of one array, and the tier a group
  is printed in (\<^verbatim>\<open>print_array_name\<close>): private before shared before global.
\<close>

definition compute_private_size :: "'x cuda_gen \<Rightarrow> isl_library \<Rightarrow> 'x cuda_array_info \<Rightarrow> 'x cuda_array_info" where
  "compute_private_size gen lib array =
     array\<lparr>groups := map (check_private_group_access gen lib array) (groups array)\<rparr>"

datatype memory_tier = Private_tier | Shared_tier | Global_tier

definition tier_of :: "cuda_array_ref_group \<Rightarrow> memory_tier" where
  "tier_of g =
     (if private_bound g \<noteq> None then Private_tier
      else if shared_bound g \<noteq> None then Shared_tier
      else Global_tier)"


section \<open>Notions used to state and prove the properties\<close>

text \<open>
  The leader array of the grouping pass is a forest: \<open>leader ! k\<close> is an earlier member of
  the group of \<open>k\<close>, or \<open>k\<close> itself.  \<open>root\<close> follows the links to the first member of the
  group.  An entry that is not smaller than its index ends the walk, so \<open>root\<close> is total
  whatever the array holds.
\<close>

fun root :: "nat list \<Rightarrow> nat \<Rightarrow> nat" where
  "root ld k = (if ld ! k < k then root ld (ld ! k) else k)"

declare root.simps [simp del]

text \<open>
  Two groups conflict when one of them writes and their access relations intersect: the
  test of the inner loop of \<^verbatim>\<open>group_overlapping_writes\<close>.  On the initial singleton groups
  this is the conflict of two references.
\<close>

definition conflict :: "cuda_array_ref_group list \<Rightarrow> nat \<Rightarrow> nat \<Rightarrow> bool" where
  "conflict gs a b =
     ((g_write (gs ! a) \<or> g_write (gs ! b)) \<and>
      isl_map_is_empty (isl_map_intersect (access (gs ! a)) (access (gs ! b))) = 0)"

text \<open>
  Invariants of the conflict merge.  \<open>gs0\<close> are the singleton groups the pass starts from;
  every leader holds the union of the access relations of its members and is a write
  when a member is.
\<close>

definition classes_ok ::
  "cuda_array_ref_group list \<Rightarrow> cuda_array_ref_group list \<Rightarrow> nat list \<Rightarrow> nat \<Rightarrow> bool" where
  "classes_ok gs0 gs ld i =
     (\<forall>k<i. ld ! k = k \<longrightarrow>
        (\<exists>S. access (gs ! k) = Some S \<and>
           (\<forall>m<i. root ld m = k \<longrightarrow>
              (\<exists>T. access (gs0 ! m) = Some T \<and> T \<subseteq> S) \<and>
              (g_write (gs0 ! m) \<longrightarrow> g_write (gs ! k)))))"

definition scan_inv ::
  "cuda_array_ref_group list \<Rightarrow> nat \<Rightarrow> nat \<Rightarrow> nat \<Rightarrow> cuda_array_ref_group list \<Rightarrow> nat list \<Rightarrow> bool" where
  "scan_inv gs0 i jj l gs ld =
     (length gs = length gs0 \<and> length ld = length gs0 \<and> i < length gs0 \<and>
      (\<forall>k<i. ld ! k \<le> k) \<and> jj \<le> l \<and> l \<le> i \<and> (l < i \<longrightarrow> ld ! l = l) \<and>
      classes_ok gs0 gs (ld[i := l]) (Suc i) \<and>
      (\<forall>a<i. \<forall>b<i. conflict gs0 a b \<longrightarrow> root (ld[i := l]) a = root (ld[i := l]) b) \<and>
      (\<forall>k<i. jj \<le> root (ld[i := l]) k \<longrightarrow> conflict gs0 k i \<longrightarrow> root (ld[i := l]) k = l) \<and>
      (\<forall>k<length gs0. refs (gs ! k) = refs (gs0 ! k)) \<and>
      (\<forall>k<length gs0. i < k \<longrightarrow> gs ! k = gs0 ! k))"

definition merged_inv ::
  "cuda_array_ref_group list \<Rightarrow> nat \<Rightarrow> cuda_array_ref_group list \<Rightarrow> nat list \<Rightarrow> bool" where
  "merged_inv gs0 i gs ld =
     (length gs = length gs0 \<and> length ld = length gs0 \<and> i \<le> length gs0 \<and>
      (\<forall>k<i. ld ! k \<le> k) \<and>
      classes_ok gs0 gs ld i \<and>
      (\<forall>a<i. \<forall>b<i. conflict gs0 a b \<longrightarrow> root ld a = root ld b) \<and>
      (\<forall>k<length gs0. refs (gs ! k) = refs (gs0 ! k)) \<and>
      (\<forall>k<length gs0. i \<le> k \<longrightarrow> gs ! k = gs0 ! k))"

text \<open>The updates of one merge step, and the body of the outer loops, under a name.\<close>

definition merge_into ::
  "cuda_array_ref_group list \<Rightarrow> nat \<Rightarrow> nat \<Rightarrow> cuda_array_ref_group list" where
  "merge_into gs l j =
     (let gs1 = gs[j := (gs ! j)\<lparr>access := isl_map_union (access (gs ! j)) (access (gs ! l)),
                                      g_write := True\<rparr>];
          gs2 = gs1[l := (gs1 ! l)\<lparr>access := None\<rparr>]
      in gs2[j := (gs2 ! j)\<lparr>n_ref := n_ref (gs2 ! j) + n_ref (gs2 ! l)\<rparr>])"

definition ow_step :: "nat \<Rightarrow> grouping \<Rightarrow> grouping" where
  "ow_step = (\<lambda>i (gs, leader, n_grp).
        (let gs0 = gs[i := (gs ! i)\<lparr>n_ref := 1\<rparr>];
             (l, gs1, leader1, n_grp1) = overlapping_writes_scan i i (gs0, leader, n_grp)
         in (gs1, leader1[i := l], n_grp1)))"

text \<open>The groups \<^verbatim>\<open>populate_array_references\<close> creates, one per active reference.\<close>

definition active_ref :: "'x cuda_stmt_access list \<Rightarrow> 'x isl_union_map \<Rightarrow> nat \<Rightarrow> bool" where
  "active_ref arefs sched i = (isl_union_map_apply_domain (ref_access (arefs ! i)) sched \<noteq> {})"

definition singleton_group ::
  "'x cuda_stmt_access list \<Rightarrow> 'x isl_union_map \<Rightarrow> nat \<Rightarrow> cuda_array_ref_group" where
  "singleton_group arefs sched i =
     \<lparr>nr = 0, access = Some (isl_union_map_apply_domain (ref_access (arefs ! i)) sched),
      g_write = ref_write (arefs ! i), shared_bound = None, private_bound = None,
      n_ref = 0, refs = [i]\<rparr>"

text \<open>Well-formed leader arrays, and a grouping that only merges groups of another.\<close>

definition wf_leader :: "nat \<Rightarrow> nat list \<Rightarrow> bool" where
  "wf_leader n ld = (length ld = n \<and> (\<forall>k<n. ld ! k \<le> k))"

definition coarser :: "nat \<Rightarrow> nat list \<Rightarrow> nat list \<Rightarrow> bool" where
  "coarser n ld ld' = (\<forall>a<n. \<forall>b<n. root ld a = root ld b \<longrightarrow> root ld' a = root ld' b)"

definition tile_merge_into ::
  "cuda_array_ref_group list \<Rightarrow> nat \<Rightarrow> nat \<Rightarrow> cuda_array_bound list \<Rightarrow> isl_map option
     \<Rightarrow> cuda_array_ref_group list" where
  "tile_merge_into gs l j sb m =
     (let gs1 = gs[j := (gs ! j)\<lparr>shared_bound := Some sb, access := m\<rparr>]
      in gs1[j := (gs1 ! j)\<lparr>n_ref := n_ref (gs1 ! j) + n_ref (gs1 ! l)\<rparr>])"

declare group_common_shared_memory_tile_from.simps [simp del]

text \<open>
  The parts of \<^verbatim>\<open>extract_array_groups\<close>: setting the \<open>group\<close> field of a reference, the
  number of leaders before a position, and the body of the loop over the leaders.
\<close>

definition set_group :: "int \<Rightarrow> nat \<Rightarrow> 'x cuda_stmt_access list \<Rightarrow> 'x cuda_stmt_access list" where
  "set_group v = (\<lambda>r a. a[r := (a ! r)\<lparr>ref_group := v\<rparr>])"

definition ordinal :: "nat list \<Rightarrow> nat \<Rightarrow> nat" where
  "ordinal ld i = length (filter (\<lambda>k. ld ! k = k) [0..<i])"

definition ex_step ::
  "nat \<Rightarrow> cuda_array_ref_group list \<Rightarrow> nat list \<Rightarrow> nat
    \<Rightarrow> nat \<times> 'x cuda_stmt_access list \<times> cuda_array_ref_group list
    \<Rightarrow> nat \<times> 'x cuda_stmt_access list \<times> cuda_array_ref_group list" where
  "ex_step n gs leader = (\<lambda>i (j, arefs, out).
               if leader ! i \<noteq> i then (j, arefs, out)
               else (let members = filter (\<lambda>k. leader ! k = i) [i..<n];
                         rs = map (\<lambda>k. hd (refs (gs ! k))) members;
                         arefs1 = fold (\<lambda>r a. a[r := (a ! r)\<lparr>ref_group := int j\<rparr>]) rs arefs
                     in (Suc j, arefs1, out @ [(gs ! i)\<lparr>refs := rs, nr := j\<rparr>])))"
text \<open>
  \<open>unit_step len pos s s'\<close>: both tuples have \<open>len\<close> coordinates and \<open>s'\<close> is \<open>s\<close> with one
  added to the coordinate at \<open>pos\<close>.
\<close>

definition unit_step :: "nat \<Rightarrow> int \<Rightarrow> int list \<Rightarrow> int list \<Rightarrow> bool" where
  "unit_step len pos s s' =
     (length s = len \<and> length s' = len \<and>
      (\<forall>i<len. s' ! i = s ! i + (if int i = pos then 1 else 0)))"


section \<open>Concrete inputs\<close>

text \<open>
  A relation library that finds no bound: its hull is the universe and its optimisation
  problems are unbounded.
\<close>

definition unbounded_library :: isl_library where
  "unbounded_library =
     \<lparr>isl_map_simple_hull = (\<lambda>m. \<lparr>n_in = 0, n_out = 1, n_div = 0, constraints = []\<rparr>),
      isl_basic_map_affine_hull = (\<lambda>b. b),
      isl_basic_map_apply_range = (\<lambda>b s. b),
      isl_basic_set_max = (\<lambda>b pos a. (isl_lp_unbounded, 0))\<rparr>"

text \<open>
  Three references to a one-dimensional array \<open>A\<close> from the single instance \<open>0\<close> of a
  statement: a read of \<open>A[1]\<close> and \<open>A[2]\<close>, a read of \<open>A[1]\<close> and a write of \<open>A[2]\<close>.
\<close>

definition example_array :: "nat cuda_array_info" where
  "example_array =
     \<lparr>n_index = 1,
      array_refs =
        [\<lparr>ref_read = True, ref_write = False,
          ref_access = {([], 0, [1]), ([], 0, [2])}, ref_group = - 1\<rparr>,
         \<lparr>ref_read = True, ref_write = False, ref_access = {([], 0, [1])}, ref_group = - 1\<rparr>,
         \<lparr>ref_read = False, ref_write = True, ref_access = {([], 0, [2])}, ref_group = - 1\<rparr>],
      n_group = 0, groups = []\<rparr>"

definition example_sched :: "nat isl_union_map" where
  "example_sched = {([], 0, [])}"





text \<open>
  A kernel in which the two instances \<open>0\<close> and \<open>1\<close> of a statement, run by the same thread,
  both read \<open>A[0]\<close>: there are no shared tile loops and no thread loops, so the schedule
  maps both instances to the empty tuple.  \<open>point_library\<close> holds the answers of the
  relation library for the relation \<open>{A[0]}\<close>: the hull \<open>0 \<le> j \<le> 0\<close>, the equality \<open>j = 0\<close>
  and the maximum \<open>0\<close> of \<open>j - 0\<close>.
\<close>

definition point_library :: isl_library where
  "point_library =
     \<lparr>isl_map_simple_hull = (\<lambda>m.
        \<lparr>n_in = 0, n_out = 1, n_div = 0,
         constraints =
           [\<lparr>is_equality = False, c_constant = 0, c_param = [], c_in = [], c_out = [1], c_div = []\<rparr>,
            \<lparr>is_equality = False, c_constant = 0, c_param = [], c_in = [], c_out = [- 1], c_div = []\<rparr>]\<rparr>),
      isl_basic_map_affine_hull = (\<lambda>b.
        \<lparr>n_in = 0, n_out = 1, n_div = 0,
         constraints =
           [\<lparr>is_equality = True, c_constant = 0, c_param = [], c_in = [], c_out = [1], c_div = []\<rparr>]\<rparr>),
      isl_basic_map_apply_range = (\<lambda>b s. b),
      isl_basic_set_max = (\<lambda>b pos a. (isl_lp_ok, 0))\<rparr>"

definition reuse_array :: "nat cuda_array_info" where
  "reuse_array =
     \<lparr>n_index = 1,
      array_refs =
        [\<lparr>ref_read = True, ref_write = False,
          ref_access = {([], 0, [0]), ([], 1, [0])}, ref_group = - 1\<rparr>],
      n_group = 0, groups = []\<rparr>"

definition reuse_sched :: "nat isl_union_map" where
  "reuse_sched = {([], 0, []), ([], 1, [])}"

definition reuse_gen :: "nat cuda_gen" where
  "reuse_gen =
     \<lparr>tiled_sched = {([], 0, [0]), ([], 1, [1])}, shared_sched = reuse_sched,
      privatization = {([], [], [])}, tiled_len = 1, shared_len = 0, n_block = 0\<rparr>"

text \<open>
  A kernel in which thread \<open>t\<close> of two reads \<open>A[t]\<close>: one thread loop and no shared tile
  loop.  The group holds a shared tile of size two.
\<close>

definition thread_array :: "nat cuda_array_info" where
  "thread_array =
     \<lparr>n_index = 1,
      array_refs =
        [\<lparr>ref_read = True, ref_write = False,
          ref_access = {([], 0, [0]), ([], 1, [1])}, ref_group = 0\<rparr>],
      n_group = 1, groups = []\<rparr>"

definition thread_gen :: "nat cuda_gen" where
  "thread_gen =
     \<lparr>tiled_sched = {([], 0, [0]), ([], 1, [1])}, shared_sched = {([], 0, [0]), ([], 1, [1])},
      privatization = {([], [0], []), ([], [1], [])}, tiled_len = 1, shared_len = 0, n_block = 1\<rparr>"

definition thread_group :: cuda_array_ref_group where
  "thread_group =
     \<lparr>nr = 0, access = Some {([], [], [0]), ([], [], [1])}, g_write = False,
      shared_bound = Some [\<lparr>b_size = 2,
         b_lb = Some \<lparr>e_constant = 0, e_param = [], e_set = [0], e_den = 1\<rparr>,
         b_stride = - 1, b_shift = None, b_shift_map = None\<rparr>],
      private_bound = None, n_ref = 1, refs = [0]\<rparr>"

text \<open>
  The two passes run in this order on the groups of an array (\<^verbatim>\<open>group_references\<close>, then
  \<^verbatim>\<open>compute_private_size\<close>).  \<open>tier_exclusive\<close> says of a finished group what the
  specification says: it does not hold both a private and a shared tile.
\<close>

definition tier_exclusive :: "cuda_array_ref_group \<Rightarrow> bool" where
  "tier_exclusive g = (\<not> (private_bound g \<noteq> None \<and> shared_bound g \<noteq> None))"

definition reuse_groups :: "cuda_array_ref_group list" where
  "reuse_groups =
     groups (compute_private_size reuse_gen point_library
       (group_array_references point_library (\<lambda>k. 0) reuse_array reuse_sched))"

definition reuse_grouped_array :: "nat cuda_array_info" where
  "reuse_grouped_array = group_array_references point_library (\<lambda>k. 0) reuse_array reuse_sched"

definition reuse_group :: cuda_array_ref_group where
  "reuse_group = hd (groups reuse_grouped_array)"


section \<open>Facts about relations\<close>

lemma apply_domain_iff:
  "(p, c, a) \<in> isl_union_map_apply_domain r s \<longleftrightarrow> (\<exists>x. (p, x, a) \<in> r \<and> (p, x, c) \<in> s)"
  unfolding isl_union_map_apply_domain_def by force

lemma apply_range_iff:
  "(p, x, c) \<in> isl_map_apply_range r s \<longleftrightarrow> (\<exists>a. (p, x, a) \<in> r \<and> (p, a, c) \<in> s)"
  unfolding isl_map_apply_range_def by force


subsection \<open>Constraints over unit vectors\<close>

lemma dot_Nil [simp]: "dot [] v = 0" "dot cs [] = 0"
  by (simp_all add: dot_def)

lemma dot_Cons [simp]: "dot (c # cs) (x # v) = c * x + dot cs v"
  by (simp add: dot_def)

lemma dot_replicate_zero [simp]: "dot (replicate n 0) v = 0"
  by (induction n arbitrary: v) (case_tac v; simp)+

lemma dot_update:
  "i < length cs \<Longrightarrow> length v = length cs \<Longrightarrow> dot (cs[i := c]) v = dot cs v + (c - cs ! i) * v ! i"
proof (induction cs arbitrary: i v)
  case Nil
  then show ?case by simp
next
  case (Cons a cs)
  then obtain x v' where v: "v = x # v'" by (cases v) auto
  show ?case
  proof (cases i)
    case 0
    then show ?thesis using v by (simp add: algebra_simps)
  next
    case (Suc i')
    then show ?thesis using v Cons by simp
  qed
qed

lemma dot_append:
  "length cs = length v \<Longrightarrow> dot (cs @ ds) (v @ w) = dot cs v + dot ds w"
  by (simp add: dot_def)

lemma next_constraint_holds:
  assumes "i < len" "length s = len" "length s' = len"
  shows "constraint_holds (next_constraint len pos i) p s s' [] \<longleftrightarrow>
     s' ! i = s ! i + (if int i = pos then 1 else 0)"
  using assms
  by (auto simp add: next_constraint_def constraint_holds_def constraint_value_def Let_def
      isl_equality_alloc_def set_coefficient_in_def set_coefficient_out_def set_constant_def
      dot_update)

lemma next_map_iff:
  "(p, s, s') \<in> next_map len pos \<longleftrightarrow>
     length s = len \<and> length s' = len \<and>
     (\<forall>i<len. s' ! i = s ! i + (if int i = pos then 1 else 0))"
proof -
  have "(\<forall>c\<in>set (map (next_constraint len pos) [0..<len]). constraint_holds c p s s' []) \<longleftrightarrow>
     (\<forall>i<len. s' ! i = s ! i + (if int i = pos then 1 else 0))"
    if "length s = len" "length s' = len"
    using next_constraint_holds [OF _ that] by auto
  then show ?thesis
    unfolding next_map_def isl_map_from_basic_map_def by auto
qed


section \<open>The grouping pass merges every conflicting pair\<close>

subsection \<open>Leader forests\<close>

lemma root_self: "\<not> ld ! k < k \<Longrightarrow> root ld k = k"
  by (subst root.simps) simp

lemma root_step: "ld ! k < k \<Longrightarrow> root ld k = root ld (ld ! k)"
  by (subst root.simps) simp

lemma root_le: "root ld k \<le> k"
proof (induction k rule: less_induct)
  case (less k)
  show ?case
  proof (cases "ld ! k < k")
    case True
    then have "root ld (ld ! k) \<le> ld ! k" using less by blast
    then show ?thesis using True root_step [OF True] by simp
  next
    case False
    then show ?thesis using root_self [OF False] by simp
  qed
qed

lemma root_is_leader: "\<not> ld ! (root ld k) < root ld k"
proof (induction k rule: less_induct)
  case (less k)
  show ?case
  proof (cases "ld ! k < k")
    case True
    then have "\<not> ld ! (root ld (ld ! k)) < root ld (ld ! k)" using less by blast
    then show ?thesis using root_step [OF True] by simp
  next
    case False
    then show ?thesis using root_self [OF False] by simp
  qed
qed

lemma root_cong: "(\<And>m. m \<le> k \<Longrightarrow> ld' ! m = ld ! m) \<Longrightarrow> root ld' k = root ld k"
proof (induction k rule: less_induct)
  case (less k)
  have e: "ld' ! k = ld ! k" using less.prems by simp
  show ?case
  proof (cases "ld ! k < k")
    case True
    have "root ld' (ld ! k) = root ld (ld ! k)"
      using less.IH [OF True] less.prems True by simp
    moreover have "root ld' k = root ld' (ld ! k)" using root_step [of ld' k] True e by simp
    ultimately show ?thesis using root_step [OF True] by simp
  next
    case False
    then show ?thesis using e root_self [of ld k] root_self [of ld' k] by simp
  qed
qed

lemma root_merge:
  assumes l: "\<not> ld ! l < l" "l \<le> i" and j: "j < l" "\<not> ld ! j < j"
    and l': "ld' ! l = j"
    and rest: "\<And>k. k \<le> i \<Longrightarrow> k \<noteq> l \<Longrightarrow> ld' ! k = ld ! k \<or> (ld ! k = l \<and> l < k \<and> ld' ! k = j)"
  shows "m \<le> i \<Longrightarrow> root ld' m = (if root ld m = l then j else root ld m)"
proof (induction m rule: less_induct)
  case (less m)
  have "j \<le> i" "j \<noteq> l" using j l by auto
  from rest [OF this] have j': "ld' ! j = ld ! j" using j by auto
  have rj: "root ld' j = j" using root_self [of ld' j] j' j by simp
  show ?case
  proof (cases "m = l")
    case True
    have "root ld' l = root ld' j" using root_step [of ld' l] l' j by simp
    then show ?thesis using True rj root_self [OF l(1)] by simp
  next
    case False
    from rest [OF less.prems False] show ?thesis
    proof
      assume e: "ld' ! m = ld ! m"
      show ?thesis
      proof (cases "ld ! m < m")
        case True
        have "root ld' (ld ! m) = (if root ld (ld ! m) = l then j else root ld (ld ! m))"
          using less.IH [OF True] less.prems True by simp
        moreover have "root ld' m = root ld' (ld ! m)" using root_step [of ld' m] True e by simp
        ultimately show ?thesis using root_step [OF True] by simp
      next
        case F: False
        then show ?thesis using e False root_self [of ld m] root_self [of ld' m] by simp
      qed
    next
      assume e: "ld ! m = l \<and> l < m \<and> ld' ! m = j"
      then have "root ld m = root ld l" using root_step [of ld m] by simp
      then have a: "root ld m = l" using root_self [OF l(1)] by simp
      have "root ld' m = root ld' j" using e j root_step [of ld' m] by simp
      then show ?thesis using a rj by simp
    qed
  qed
qed

lemma root_held:
  assumes "l \<le> i" "l < i \<longrightarrow> ld ! l = l" "i < length ld"
  shows "root (ld[i := l]) i = l"
proof (cases "l = i")
  case True
  then show ?thesis using root_self [of "ld[i := l]" i] assms by simp
next
  case False
  then have li: "l < i" using assms by simp
  then have "root (ld[i := l]) i = root (ld[i := l]) l"
    using root_step [of "ld[i := l]" i] assms by simp
  also have "\<dots> = l" using root_self [of "ld[i := l]" l] li assms by simp
  finally show ?thesis .
qed

lemma scan_invD:
  assumes "scan_inv gs0 i jj l gs ld"
  shows "length gs = length gs0" and "length ld = length gs0" and "i < length gs0"
    and "\<forall>k<i. ld ! k \<le> k" and "jj \<le> l" and "l \<le> i" and "l < i \<longrightarrow> ld ! l = l"
    and "classes_ok gs0 gs (ld[i := l]) (Suc i)"
    and "\<forall>a<i. \<forall>b<i. conflict gs0 a b \<longrightarrow> root (ld[i := l]) a = root (ld[i := l]) b"
    and "\<forall>k<i. jj \<le> root (ld[i := l]) k \<longrightarrow> conflict gs0 k i \<longrightarrow> root (ld[i := l]) k = l"
    and "\<forall>k<length gs0. refs (gs ! k) = refs (gs0 ! k)"
    and "\<forall>k<length gs0. i < k \<longrightarrow> gs ! k = gs0 ! k"
  using assms unfolding scan_inv_def by simp_all

lemma scan_invI:
  assumes "length gs = length gs0" and "length ld = length gs0" and "i < length gs0"
    and "\<forall>k<i. ld ! k \<le> k" and "jj \<le> l" and "l \<le> i" and "l < i \<longrightarrow> ld ! l = l"
    and "classes_ok gs0 gs (ld[i := l]) (Suc i)"
    and "\<forall>a<i. \<forall>b<i. conflict gs0 a b \<longrightarrow> root (ld[i := l]) a = root (ld[i := l]) b"
    and "\<forall>k<i. jj \<le> root (ld[i := l]) k \<longrightarrow> conflict gs0 k i \<longrightarrow> root (ld[i := l]) k = l"
    and "\<forall>k<length gs0. refs (gs ! k) = refs (gs0 ! k)"
    and "\<forall>k<length gs0. i < k \<longrightarrow> gs ! k = gs0 ! k"
  shows "scan_inv gs0 i jj l gs ld"
  using assms unfolding scan_inv_def by simp

lemma merged_invD:
  assumes "merged_inv gs0 i gs ld"
  shows "length gs = length gs0" and "length ld = length gs0" and "i \<le> length gs0"
    and "\<forall>k<i. ld ! k \<le> k"
    and "classes_ok gs0 gs ld i"
    and "\<forall>a<i. \<forall>b<i. conflict gs0 a b \<longrightarrow> root ld a = root ld b"
    and "\<forall>k<length gs0. refs (gs ! k) = refs (gs0 ! k)"
    and "\<forall>k<length gs0. i \<le> k \<longrightarrow> gs ! k = gs0 ! k"
  using assms unfolding merged_inv_def by simp_all

lemma merged_invI:
  assumes "length gs = length gs0" and "length ld = length gs0" and "i \<le> length gs0"
    and "\<forall>k<i. ld ! k \<le> k"
    and "classes_ok gs0 gs ld i"
    and "\<forall>a<i. \<forall>b<i. conflict gs0 a b \<longrightarrow> root ld a = root ld b"
    and "\<forall>k<length gs0. refs (gs ! k) = refs (gs0 ! k)"
    and "\<forall>k<length gs0. i \<le> k \<longrightarrow> gs ! k = gs0 ! k"
  shows "merged_inv gs0 i gs ld"
  using assms unfolding merged_inv_def by simp

subsection \<open>The conflict merge\<close>

lemma overlap_nonempty:
  "isl_map_is_empty (isl_map_intersect a b) = 0 \<longleftrightarrow> (\<exists>S T. a = Some S \<and> b = Some T \<and> S \<inter> T \<noteq> {})"
  by (auto simp: isl_map_is_empty_def isl_map_intersect_def split: option.splits)

lemma merge_into_nth:
  assumes "j < l" "l < length gs"
  shows "length (merge_into gs l j) = length gs"
    and "access (merge_into gs l j ! j) = isl_map_union (access (gs ! j)) (access (gs ! l))"
    and "g_write (merge_into gs l j ! j)"
    and "refs (merge_into gs l j ! k) = refs (gs ! k)"
    and "k \<noteq> j \<Longrightarrow> k \<noteq> l \<Longrightarrow> merge_into gs l j ! k = gs ! k"
  using assms
  by (auto simp: merge_into_def Let_def nth_list_update)

lemma scan_inv_held:
  assumes "scan_inv gs0 i jj l gs ld"
  shows "root (ld[i := l]) i = l" and "ld[i := l] ! l = l"
proof -
  note d = scan_invD [OF assms]
  have a: "l \<le> i" "l < i \<longrightarrow> ld ! l = l" "i < length ld"
    using d(2,3,6,7) by simp_all
  show "root (ld[i := l]) i = l" using root_held [OF a] .
  show "ld[i := l] ! l = l" using a by (cases "l = i") auto
qed

lemma scan_skip:
  assumes inv: "scan_inv gs0 i (Suc j) l gs ld"
    and skip: "ld ! j \<noteq> j \<or> (\<not> g_write (gs ! l) \<and> \<not> g_write (gs ! j)) \<or>
       isl_map_is_empty (isl_map_intersect (access (gs ! l)) (access (gs ! j))) \<noteq> 0"
  shows "scan_inv gs0 i j l gs ld"
proof -
  let ?L = "ld[i := l]"
  note d = scan_invD [OF inv]
  have b: "Suc j \<le> l" "l \<le> i" "i < length ld" "\<forall>k<i. ld ! k \<le> k"
    using d(2,3,4,5,6) by simp_all
  have ji: "j < i" using b by simp
  have cl: "classes_ok gs0 gs ?L (Suc i)" using d(8) .
  have old: "\<forall>k<i. Suc j \<le> root ?L k \<longrightarrow> conflict gs0 k i \<longrightarrow> root ?L k = l"
    using d(10) .
  have new: "root ?L k = l" if k: "k < i" "j \<le> root ?L k" "conflict gs0 k i" for k
  proof (cases "root ?L k = j")
    case False
    then show ?thesis using old k by auto
  next
    case True
    have "\<not> ?L ! j < j" using root_is_leader [of ?L k] True by simp
    then have lj: "ld ! j = j" "?L ! j = j" using b ji by (auto simp: le_less)
    from cl lj ji obtain S where S: "access (gs ! j) = Some S"
      and Sm: "\<forall>m<Suc i. root ?L m = j \<longrightarrow>
              (\<exists>T. access (gs0 ! m) = Some T \<and> T \<subseteq> S) \<and> (g_write (gs0 ! m) \<longrightarrow> g_write (gs ! j))"
      unfolding classes_ok_def by (meson less_Suc_eq)
    from cl scan_inv_held [OF inv] b obtain S' where S': "access (gs ! l) = Some S'"
      and Sm': "\<forall>m<Suc i. root ?L m = l \<longrightarrow>
              (\<exists>T. access (gs0 ! m) = Some T \<and> T \<subseteq> S') \<and> (g_write (gs0 ! m) \<longrightarrow> g_write (gs ! l))"
      unfolding classes_ok_def by (meson le_imp_less_Suc)
    have "k < Suc i" using k by simp
    with Sm True have "(\<exists>T. access (gs0 ! k) = Some T \<and> T \<subseteq> S) \<and>
        (g_write (gs0 ! k) \<longrightarrow> g_write (gs ! j))" by blast
    then obtain T where T: "access (gs0 ! k) = Some T" "T \<subseteq> S"
      "g_write (gs0 ! k) \<longrightarrow> g_write (gs ! j)" by blast
    have "i < Suc i" by simp
    with Sm' scan_inv_held(1) [OF inv] have "(\<exists>T. access (gs0 ! i) = Some T \<and> T \<subseteq> S') \<and>
        (g_write (gs0 ! i) \<longrightarrow> g_write (gs ! l))" by blast
    then obtain T' where T': "access (gs0 ! i) = Some T'" "T' \<subseteq> S'"
      "g_write (gs0 ! i) \<longrightarrow> g_write (gs ! l)" by blast
    from k(3) have w: "g_write (gs0 ! k) \<or> g_write (gs0 ! i)" and ne: "T \<inter> T' \<noteq> {}"
      using T T' by (auto simp: conflict_def overlap_nonempty)
    have "S' \<inter> S \<noteq> {}" using ne T T' by blast
    then have "isl_map_is_empty (isl_map_intersect (access (gs ! l)) (access (gs ! j))) = 0"
      using S S' by (simp add: overlap_nonempty)
    moreover have "g_write (gs ! l) \<or> g_write (gs ! j)" using w T T' by blast
    ultimately show ?thesis using skip lj by blast
  qed
  have new': "\<forall>k<i. j \<le> root ?L k \<longrightarrow> conflict gs0 k i \<longrightarrow> root ?L k = l"
    using new by blast
  have "j \<le> l" using b by simp
  from scan_invI [OF d(1,2,3,4) this d(6,7,8,9) new' d(11,12)] show ?thesis .
qed

lemma scan_merge:
  assumes inv: "scan_inv gs0 i (Suc j) l gs ld"
    and lead: "ld ! j = j"
    and ov: "isl_map_is_empty (isl_map_intersect (access (gs ! l)) (access (gs ! j))) = 0"
  shows "scan_inv gs0 i j j (merge_into gs l j) (ld[l := j])"
proof -
  let ?L = "ld[i := l]"
  let ?L' = "ld[l := j, i := j]"
  let ?gs = "merge_into gs l j"
  note d = scan_invD [OF inv]
  have b: "Suc j \<le> l" "l \<le> i" "i < length ld" "\<forall>k<i. ld ! k \<le> k" "length gs = length gs0"
    "length ld = length gs0" "l < i \<longrightarrow> ld ! l = l"
    using d(1,2,3,4,5,6,7) by simp_all
  have jl: "j < l" "j < i" "l < length gs" using b by auto
  note mi = merge_into_nth [OF jl(1) jl(3)]
  have Ll: "\<not> ?L ! l < l" using scan_inv_held(2) [OF inv] by simp
  have Lj: "\<not> ?L ! j < j" using lead jl by simp
  have L'l: "?L' ! l = j" using b jl by (cases "l = i") auto
  have rest: "?L' ! k = ?L ! k \<or> (?L ! k = l \<and> l < k \<and> ?L' ! k = j)" if "k \<le> i" "k \<noteq> l" for k
    using that b by (cases "k = i") auto
  have rm: "root ?L' m = (if root ?L m = l then j else root ?L m)" if "m \<le> i" for m
    using root_merge [of ?L l i j ?L' m, OF Ll b(2) jl(1) Lj L'l rest that] by simp
  have cl: "classes_ok gs0 gs ?L (Suc i)" using d(8) .
  from ov obtain Sl Sj where Sl: "access (gs ! l) = Some Sl" and Sj: "access (gs ! j) = Some Sj"
    by (auto simp: overlap_nonempty)
  have memb: "(\<exists>T. access (gs0 ! m) = Some T \<and> T \<subseteq> S) \<and> (g_write (gs0 ! m) \<longrightarrow> g_write (gs ! k))"
    if "k \<le> i" "?L ! k = k" "access (gs ! k) = Some S" "m \<le> i" "root ?L m = k" for k m S
  proof -
    from cl that(1,2) obtain S' where S': "access (gs ! k) = Some S'"
      and Sm: "\<forall>m<Suc i. root ?L m = k \<longrightarrow>
              (\<exists>T. access (gs0 ! m) = Some T \<and> T \<subseteq> S') \<and> (g_write (gs0 ! m) \<longrightarrow> g_write (gs ! k))"
      unfolding classes_ok_def by (meson le_imp_less_Suc)
    have "m < Suc i" using that by simp
    with Sm that(5) have "(\<exists>T. access (gs0 ! m) = Some T \<and> T \<subseteq> S') \<and>
       (g_write (gs0 ! m) \<longrightarrow> g_write (gs ! k))" by blast
    then show ?thesis using S' that(3) by simp
  qed
  have c1: "classes_ok gs0 ?gs ?L' (Suc i)"
    unfolding classes_ok_def
  proof (intro allI impI)
    fix k assume k: "k < Suc i" "?L' ! k = k"
    show "\<exists>S. access (?gs ! k) = Some S \<and>
           (\<forall>m<Suc i. root ?L' m = k \<longrightarrow>
              (\<exists>T. access (gs0 ! m) = Some T \<and> T \<subseteq> S) \<and>
              (g_write (gs0 ! m) \<longrightarrow> g_write (?gs ! k)))"
    proof (cases "k = j")
      case True
      have a: "access (?gs ! j) = Some (Sj \<union> Sl)"
        using mi(2) Sl Sj by (simp add: isl_map_union_def)
      have "(\<exists>T. access (gs0 ! m) = Some T \<and> T \<subseteq> Sj \<union> Sl) \<and>
              (g_write (gs0 ! m) \<longrightarrow> g_write (?gs ! j))" if m: "m < Suc i" "root ?L' m = j" for m
      proof -
        have mi': "m \<le> i" using m by simp
        have "root ?L m = l \<or> root ?L m = j" using rm [OF mi'] m(2) by (auto split: if_splits)
        then show ?thesis
        proof
          assume "root ?L m = l"
          from memb [OF b(2) scan_inv_held(2) [OF inv] Sl mi' this] show ?thesis
            using mi(3) by blast
        next
          assume r: "root ?L m = j"
          have "j \<le> i" "?L ! j = j" using jl lead by auto
          from memb [OF this Sj mi' r] show ?thesis using mi(3) by blast
        qed
      qed
      then show ?thesis using a True by blast
    next
      case False
      have kl: "k \<noteq> l" using k(2) L'l jl by auto
      have ki: "k \<noteq> i" using k(2) b jl by auto
      then have ki': "k \<le> i" "k < i" using k by auto
      have Lk: "?L ! k = k" using k(2) ki kl by simp
      from cl ki' Lk obtain S where S: "access (gs ! k) = Some S"
        unfolding classes_ok_def by (meson le_imp_less_Suc)
      have e: "?gs ! k = gs ! k" using mi(5) False kl by simp
      have "(\<exists>T. access (gs0 ! m) = Some T \<and> T \<subseteq> S) \<and>
              (g_write (gs0 ! m) \<longrightarrow> g_write (?gs ! k))" if m: "m < Suc i" "root ?L' m = k" for m
      proof -
        have mi': "m \<le> i" using m by simp
        have "root ?L m = k" using rm [OF mi'] m(2) False by (auto split: if_splits)
        from memb [OF ki'(1) Lk S mi' this] show ?thesis using e by simp
      qed
      then show ?thesis using S e by auto
    qed
  qed
  have c2: "\<forall>a<i. \<forall>b<i. conflict gs0 a b \<longrightarrow> root ?L' a = root ?L' b"
  proof (intro allI impI)
    fix a b' assume "a < i" "b' < i" "conflict gs0 a b'"
    then have "root ?L a = root ?L b'" "a \<le> i" "b' \<le> i" using d(9) by simp_all
    then show "root ?L' a = root ?L' b'" using rm by simp
  qed
  have old: "\<forall>k<i. Suc j \<le> root ?L k \<longrightarrow> conflict gs0 k i \<longrightarrow> root ?L k = l"
    using d(10) .
  have c3: "\<forall>k<i. j \<le> root ?L' k \<longrightarrow> conflict gs0 k i \<longrightarrow> root ?L' k = j"
  proof (intro allI impI)
    fix k assume k: "k < i" "j \<le> root ?L' k" "conflict gs0 k i"
    have r: "root ?L' k = (if root ?L k = l then j else root ?L k)" using rm [of k] k by simp
    show "root ?L' k = j"
    proof (cases "root ?L k = l")
      case True then show ?thesis using r by simp
    next
      case False
      then have e: "root ?L' k = root ?L k" using r by simp
      show ?thesis
      proof (rule ccontr)
        assume "root ?L' k \<noteq> j"
        then have "Suc j \<le> root ?L k" using k(2) e by simp
        then show False using old k False by blast
      qed
    qed
  qed
  have c4: "\<forall>k<i. ld[l := j] ! k \<le> k" using b jl by (auto simp: nth_list_update)
  have c5: "j < i \<longrightarrow> ld[l := j] ! j = j" using lead jl by simp
  have c6: "\<forall>k<length gs0. refs (?gs ! k) = refs (gs0 ! k)"
    using mi(4) d(11) by simp
  have c7: "\<forall>k<length gs0. i < k \<longrightarrow> ?gs ! k = gs0 ! k"
  proof (intro allI impI)
    fix k assume k: "k < length gs0" "i < k"
    then have "gs ! k = gs0 ! k" using d(12) by simp
    moreover have "k \<noteq> j" "k \<noteq> l" using k jl b by auto
    ultimately show "?gs ! k = gs0 ! k" using mi(5) by simp
  qed
  have c8: "length ?gs = length gs0" "length (ld[l := j]) = length gs0" "i < length gs0"
    using mi(1) b by auto
  have c9: "j \<le> j" "j \<le> i" using jl by simp_all
  have c1': "classes_ok gs0 ?gs (ld[l := j, i := j]) (Suc i)" using c1 .
  from scan_invI [OF c8 c4 c9 c5 c1' c2 c3 c6 c7] show ?thesis .
qed

lemma scan_Suc:
  "overlapping_writes_scan (Suc j) l (gs, ld, ng) =
     (if ld ! j \<noteq> j \<or> (\<not> g_write (gs ! l) \<and> \<not> g_write (gs ! j)) \<or>
         isl_map_is_empty (isl_map_intersect (access (gs ! l)) (access (gs ! j))) \<noteq> 0
      then overlapping_writes_scan j l (gs, ld, ng)
      else overlapping_writes_scan j j (merge_into gs l j, ld[l := j], ng - 1))"
  by (simp add: merge_into_def Let_def)

lemma scan_final:
  "scan_inv gs0 i jj l gs ld \<Longrightarrow>
   overlapping_writes_scan jj l (gs, ld, ng) = (l', gs', ld', ng') \<Longrightarrow>
   scan_inv gs0 i 0 l' gs' ld'"
proof (induction jj arbitrary: l gs ld ng)
  case 0
  then show ?case by simp
next
  case (Suc j)
  show ?case
  proof (cases "ld ! j \<noteq> j \<or> (\<not> g_write (gs ! l) \<and> \<not> g_write (gs ! j)) \<or>
       isl_map_is_empty (isl_map_intersect (access (gs ! l)) (access (gs ! j))) \<noteq> 0")
    case True
    from scan_skip [OF Suc.prems(1) True] have i: "scan_inv gs0 i j l gs ld" .
    have "overlapping_writes_scan (Suc j) l (gs, ld, ng) = overlapping_writes_scan j l (gs, ld, ng)"
      using True by (simp only: scan_Suc if_True)
    then show ?thesis using Suc.IH [OF i] Suc.prems(2) by simp
  next
    case False
    then have f: "ld ! j = j"
      "isl_map_is_empty (isl_map_intersect (access (gs ! l)) (access (gs ! j))) = 0" by auto
    from scan_merge [OF Suc.prems(1) f] have i: "scan_inv gs0 i j j (merge_into gs l j) (ld[l := j])" .
    have "overlapping_writes_scan (Suc j) l (gs, ld, ng) =
       overlapping_writes_scan j j (merge_into gs l j, ld[l := j], ng - 1)"
      using False by (simp only: scan_Suc if_False)
    then show ?thesis using Suc.IH [OF i] Suc.prems(2) by simp
  qed
qed

lemma conflict_sym: "conflict gs a b \<Longrightarrow> conflict gs b a"
  by (auto simp: conflict_def overlap_nonempty)

lemma scan_start:
  assumes inv: "merged_inv gs0 i gs ld" and i: "i < length gs0"
    and some: "\<exists>T. access (gs0 ! i) = Some T"
  shows "scan_inv gs0 i i i (gs[i := (gs ! i)\<lparr>n_ref := 1\<rparr>]) ld"
proof -
  let ?L = "ld[i := i]"
  let ?gs = "gs[i := (gs ! i)\<lparr>n_ref := 1\<rparr>]"
  note d = merged_invD [OF inv]
  have b: "length gs = length gs0" "length ld = length gs0" "\<forall>k<i. ld ! k \<le> k"
    "gs ! i = gs0 ! i"
    using d(1,2,4,8) i by simp_all
  have rc: "root ?L m = root ld m" if "m < i" for m
    using that by (intro root_cong) simp
  have ri: "root ?L i = i" using root_self [of ?L i] i b by simp
  have cl: "classes_ok gs0 gs ld i" using d(5) .
  from some obtain T where T: "access (gs0 ! i) = Some T" by blast
  have c1: "classes_ok gs0 ?gs ?L (Suc i)"
    unfolding classes_ok_def
  proof (intro allI impI)
    fix k assume k: "k < Suc i" "?L ! k = k"
    show "\<exists>S. access (?gs ! k) = Some S \<and>
           (\<forall>m<Suc i. root ?L m = k \<longrightarrow>
              (\<exists>T. access (gs0 ! m) = Some T \<and> T \<subseteq> S) \<and>
              (g_write (gs0 ! m) \<longrightarrow> g_write (?gs ! k)))"
    proof (cases "k = i")
      case True
      have a: "access (?gs ! i) = Some T" "g_write (?gs ! i) = g_write (gs0 ! i)"
        using T b i by auto
      have "m = i" if "m < Suc i" "root ?L m = i" for m
        using that root_le [of ?L m] by simp
      then show ?thesis using a True T by auto
    next
      case False
      then have ki: "k < i" using k by simp
      then have lk: "ld ! k = k" using k by simp
      from cl [unfolded classes_ok_def, rule_format, OF ki lk]
      obtain S where S: "access (gs ! k) = Some S"
        and Sm: "\<forall>m<i. root ld m = k \<longrightarrow>
              (\<exists>T. access (gs0 ! m) = Some T \<and> T \<subseteq> S) \<and> (g_write (gs0 ! m) \<longrightarrow> g_write (gs ! k))"
        by (elim exE conjE)
      have e: "?gs ! k = gs ! k" using False by simp
      have "(\<exists>T. access (gs0 ! m) = Some T \<and> T \<subseteq> S) \<and>
              (g_write (gs0 ! m) \<longrightarrow> g_write (?gs ! k))" if m: "m < Suc i" "root ?L m = k" for m
      proof -
        have "m \<noteq> i" using m ri False by auto
        then have mi: "m < i" using m by simp
        then have "root ld m = k" using rc m by simp
        then show ?thesis using Sm mi e by simp
      qed
      then show ?thesis using S e by auto
    qed
  qed
  have c2: "\<forall>a<i. \<forall>b<i. conflict gs0 a b \<longrightarrow> root ?L a = root ?L b"
    using d(6) rc by simp
  have c3: "\<forall>k<i. i \<le> root ?L k \<longrightarrow> conflict gs0 k i \<longrightarrow> root ?L k = i"
  proof (intro allI impI)
    fix k assume "k < i" "i \<le> root ?L k"
    then show "root ?L k = i" using root_le [of ?L k] by simp
  qed
  have c6: "\<forall>k<length gs0. refs (?gs ! k) = refs (gs0 ! k)"
    using d(7) b(1) i by (simp add: nth_list_update)
  have c7: "\<forall>k<length gs0. i < k \<longrightarrow> ?gs ! k = gs0 ! k"
    using d(8) by simp
  have c8: "length ?gs = length gs0" "i \<le> i" "i < i \<longrightarrow> ld ! i = i" using b by simp_all
  from scan_invI [OF c8(1) b(2) i b(3) c8(2) c8(2) c8(3) c1 c2 c3 c6 c7] show ?thesis .
qed

lemma scan_finish:
  assumes inv: "scan_inv gs0 i 0 l gs ld"
  shows "merged_inv gs0 (Suc i) gs (ld[i := l])"
proof -
  let ?L = "ld[i := l]"
  note d = scan_invD [OF inv]
  have b: "length gs = length gs0" "length ld = length gs0" "i < length gs0"
    "\<forall>k<i. ld ! k \<le> k" "l \<le> i"
    using d(1,2,3,4,6) by simp_all
  have c1: "\<forall>k<Suc i. ?L ! k \<le> k" using b by (auto simp: nth_list_update)
  have old: "\<forall>a<i. \<forall>b<i. conflict gs0 a b \<longrightarrow> root ?L a = root ?L b"
    "\<forall>k<i. conflict gs0 k i \<longrightarrow> root ?L k = l"
    using d(9,10) by simp_all
  have ri: "root ?L i = l" using scan_inv_held(1) [OF inv] .
  have c2: "\<forall>a<Suc i. \<forall>b<Suc i. conflict gs0 a b \<longrightarrow> root ?L a = root ?L b"
  proof (intro allI impI)
    fix a b' assume a: "a < Suc i" "b' < Suc i" "conflict gs0 a b'"
    show "root ?L a = root ?L b'"
    proof (cases "a = i")
      case True
      show ?thesis
      proof (cases "b' = i")
        case True then show ?thesis using \<open>a = i\<close> by simp
      next
        case False
        then have "b' < i" using a by simp
        moreover have "conflict gs0 b' i" using conflict_sym a True by blast
        ultimately show ?thesis using old(2) ri True by simp
      qed
    next
      case False
      then have ai: "a < i" using a by simp
      show ?thesis
      proof (cases "b' = i")
        case True then show ?thesis using old(2) ai a ri by simp
      next
        case False
        then have "b' < i" using a by simp
        then show ?thesis using old(1) ai a by simp
      qed
    qed
  qed
  have c3: "length ?L = length gs0" "Suc i \<le> length gs0" using b by simp_all
  have c4: "\<forall>k<length gs0. Suc i \<le> k \<longrightarrow> gs ! k = gs0 ! k" using d(12) by simp
  from merged_invI [OF b(1) c3 c1 d(8) c2 d(11) c4] show ?thesis .
qed

lemma ow_step_inv:
  assumes inv: "merged_inv gs0 i gs ld" and i: "i < length gs0"
    and some: "\<exists>T. access (gs0 ! i) = Some T"
    and st: "ow_step i (gs, ld, ng) = (gs', ld', ng')"
  shows "merged_inv gs0 (Suc i) gs' ld'"
proof -
  obtain l gs1 ld1 ng1 where
    sc: "overlapping_writes_scan i i (gs[i := (gs ! i)\<lparr>n_ref := 1\<rparr>], ld, ng) = (l, gs1, ld1, ng1)"
    by (metis prod_cases4)
  then have e: "gs' = gs1" "ld' = ld1[i := l]" using st by (auto simp: ow_step_def Let_def)
  from scan_final [OF scan_start [OF inv i some] sc] have "scan_inv gs0 i 0 l gs1 ld1" .
  from scan_finish [OF this] show ?thesis using e by simp
qed

lemma ow_fold_inv:
  assumes len: "length ld0 = length gs0"
    and some: "\<forall>k<length gs0. \<exists>T. access (gs0 ! k) = Some T"
  shows "i \<le> length gs0 \<Longrightarrow>
     fold ow_step [0..<i] (gs0, ld0, ng0) = (gs, ld, ng) \<Longrightarrow> merged_inv gs0 i gs ld"
proof (induction i arbitrary: gs ld ng)
  case 0
  then show ?case using len by (intro merged_invI) (simp_all add: classes_ok_def)
next
  case (Suc i)
  obtain gs1 ld1 ng1 where f: "fold ow_step [0..<i] (gs0, ld0, ng0) = (gs1, ld1, ng1)"
    by (metis prod_cases3)
  have i: "i < length gs0" using Suc.prems by simp
  then have inv: "merged_inv gs0 i gs1 ld1" using Suc.IH [OF _ f] by simp
  have st: "ow_step i (gs1, ld1, ng1) = (gs, ld, ng)" using Suc.prems(2) f by simp
  from ow_step_inv [OF inv i _ st] some i show ?case by blast
qed

lemma group_overlapping_writes_inv:
  assumes "length ld0 = length gs0"
    and "\<forall>k<length gs0. \<exists>T. access (gs0 ! k) = Some T"
    and "group_overlapping_writes (length gs0) gs0 ld0 = (gs, ld, ng)"
  shows "merged_inv gs0 (length gs0) gs ld"
  using ow_fold_inv [OF assms(1,2), of "length gs0" "int (length gs0)" gs ld ng] assms(3)
  by (simp add: group_overlapping_writes_def ow_step_def)

subsection \<open>Populating, tile sharing and extraction\<close>

lemma populate_fold:
  "fold (\<lambda>i gs.
        (let map = isl_union_map_apply_domain (ref_access (arefs ! i)) sched
         in if isl_map_is_empty (Some map) \<noteq> 0 then gs
            else gs @ [\<lparr>nr = 0, access = Some map, g_write = ref_write (arefs ! i),
                        shared_bound = None, private_bound = None, n_ref = 0, refs = [i]\<rparr>]))
       xs acc = acc @ map (singleton_group arefs sched) (filter (active_ref arefs sched) xs)"
  by (induction xs arbitrary: acc)
    (simp_all add: Let_def isl_map_is_empty_def active_ref_def singleton_group_def)

lemma populate_eq:
  "populate_array_references arefs sched =
     map (singleton_group arefs sched) (filter (active_ref arefs sched) [0..<length arefs])"
  unfolding populate_array_references_def populate_fold by simp

lemma coarser_refl: "coarser n ld ld"
  by (simp add: coarser_def)

lemma coarser_trans:
  assumes "coarser n a b" and "coarser n b c"
  shows "coarser n a c"
  unfolding coarser_def
proof (intro allI impI)
  fix x y assume xy: "x < n" "y < n" "root a x = root a y"
  then have "root b x = root b y" using assms(1) unfolding coarser_def by blast
  then show "root c x = root c y" using assms(2) xy unfolding coarser_def by blast
qed

lemma link_coarser:
  assumes wf: "wf_leader n ld" and l: "l < n" "ld ! l = l" and j: "j < l" "ld ! j = j"
  shows "wf_leader n (ld[l := j])" and "coarser n ld (ld[l := j])"
proof -
  have len: "length ld = n" and le: "\<forall>k<n. ld ! k \<le> k" using wf by (simp_all add: wf_leader_def)
  show "wf_leader n (ld[l := j])"
    unfolding wf_leader_def using len le j l by (simp add: nth_list_update)
  have a: "\<not> ld ! l < l" "l \<le> n - 1" "\<not> ld ! j < j" "ld[l := j] ! l = j"
    using l j len by simp_all
  have rest: "ld[l := j] ! k = ld ! k \<or> (ld ! k = l \<and> l < k \<and> ld[l := j] ! k = j)"
    if "k \<le> n - 1" "k \<noteq> l" for k using that by simp
  have rm: "root (ld[l := j]) m = (if root ld m = l then j else root ld m)" if "m < n" for m
  proof -
    have "m \<le> n - 1" using that by simp
    from root_merge [of ld l "n - 1" j "ld[l := j]" m, OF a(1,2) j(1) a(3,4) rest this]
    show ?thesis by simp
  qed
  show "coarser n ld (ld[l := j])"
    unfolding coarser_def using rm by simp
qed

lemma tile_merge_into_props:
  "length (tile_merge_into gs l j sb m) = length gs"
  "refs (tile_merge_into gs l j sb m ! k) = refs (gs ! k)"
proof -
  show "length (tile_merge_into gs l j sb m) = length gs"
    by (simp add: tile_merge_into_def Let_def)
  show "refs (tile_merge_into gs l j sb m ! k) = refs (gs ! k)"
  proof (cases "j < length gs")
    case True
    then show ?thesis by (cases "k = j") (simp_all add: tile_merge_into_def Let_def)
  next
    case False
    then have "length gs \<le> j" by simp
    then show ?thesis by (simp add: tile_merge_into_def Let_def list_update_beyond)
  qed
qed

lemma common_scan_Suc:
  "common_tile_scan lib n_idx (Suc j) l (gs, ld, ng) =
     (if ld ! j \<noteq> j \<or> shared_bound (gs ! j) = None \<or>
         isl_map_is_empty (isl_map_intersect (access (gs ! l)) (access (gs ! j))) \<noteq> 0 \<or>
         fst (can_tile_for_shared_memory lib n_idx
                (isl_map_union (access (gs ! l)) (access (gs ! j))) (create_bound_list n_idx)) = 0
      then common_tile_scan lib n_idx j l (gs, ld, ng)
      else common_tile_scan lib n_idx j j
        (tile_merge_into gs l j
           (snd (can_tile_for_shared_memory lib n_idx
                   (isl_map_union (access (gs ! l)) (access (gs ! j))) (create_bound_list n_idx)))
           (isl_map_union (access (gs ! l)) (access (gs ! j))),
         ld[l := j], ng - 1))"
proof -
  obtain r sb where ct: "can_tile_for_shared_memory lib n_idx
      (isl_map_union (access (gs ! l)) (access (gs ! j))) (create_bound_list n_idx) = (r, sb)"
    by (metis surj_pair)
  show ?thesis
  proof (cases "shared_bound (gs ! j)")
    case None
    then show ?thesis by simp
  next
    case (Some y)
    then show ?thesis by (simp add: ct Let_def tile_merge_into_def)
  qed
qed

lemma common_from_unfold:
  "group_common_shared_memory_tile_from lib n_idx n i (gs, ld, ng) =
     (if \<not> (1 < ng \<and> i < n) then (gs, ld, ng)
      else if ld ! i \<noteq> i \<or> shared_bound (gs ! i) = None
        then group_common_shared_memory_tile_from lib n_idx n (Suc i) (gs, ld, ng)
      else group_common_shared_memory_tile_from lib n_idx n (Suc i)
             (common_tile_scan lib n_idx i i (gs, ld, ng)))"
  by (subst group_common_shared_memory_tile_from.simps) auto

lemma common_scan_inv:
  assumes "wf_leader n ld" and "l < n" and "ld ! l = l" and "jj \<le> l" and "length gs = n"
    and "common_tile_scan lib n_idx jj l (gs, ld, ng) = (gs', ld', ng')"
  shows "wf_leader n ld' \<and> coarser n ld ld' \<and> length gs' = n \<and>
         (\<forall>k. refs (gs' ! k) = refs (gs ! k))"
  using assms
proof (induction jj arbitrary: l gs ld ng)
  case 0
  then show ?case by (simp add: coarser_refl)
next
  case (Suc j)
  let ?skip = "ld ! j \<noteq> j \<or> shared_bound (gs ! j) = None \<or>
         isl_map_is_empty (isl_map_intersect (access (gs ! l)) (access (gs ! j))) \<noteq> 0 \<or>
         fst (can_tile_for_shared_memory lib n_idx
                (isl_map_union (access (gs ! l)) (access (gs ! j))) (create_bound_list n_idx)) = 0"
  show ?case
  proof (cases ?skip)
    case True
    have e: "common_tile_scan lib n_idx j l (gs, ld, ng) = (gs', ld', ng')"
      using Suc.prems(6) True by (simp only: common_scan_Suc if_True)
    have "j \<le> l" using Suc.prems(4) by simp
    from Suc.IH [OF Suc.prems(1,2,3) this Suc.prems(5) e] show ?thesis .
  next
    case False
    let ?gs = "tile_merge_into gs l j
           (snd (can_tile_for_shared_memory lib n_idx
                   (isl_map_union (access (gs ! l)) (access (gs ! j))) (create_bound_list n_idx)))
           (isl_map_union (access (gs ! l)) (access (gs ! j)))"
    have e: "common_tile_scan lib n_idx j j (?gs, ld[l := j], ng - 1) = (gs', ld', ng')"
      using Suc.prems(6) False by (simp only: common_scan_Suc if_False)
    have j: "j < l" "ld ! j = j" using Suc.prems(4) False by auto
    note lc = link_coarser [OF Suc.prems(1,2,3) j]
    have a: "j < n" "ld[l := j] ! j = j" "j \<le> j" "length ?gs = n"
      using j Suc.prems(2,5) tile_merge_into_props(1) by simp_all
    from Suc.IH [OF lc(1) a e]
    have r: "wf_leader n ld'" "coarser n (ld[l := j]) ld'" "length gs' = n"
      "\<forall>k. refs (gs' ! k) = refs (?gs ! k)" by simp_all
    have "coarser n ld ld'" using coarser_trans [OF lc(2) r(2)] .
    moreover have "\<forall>k. refs (gs' ! k) = refs (gs ! k)"
      using r(4) tile_merge_into_props(2) by simp
    ultimately show ?thesis using r(1,3) by simp
  qed
qed

lemma common_tile_inv:
  assumes "wf_leader n ld" and "length gs = n"
    and "group_common_shared_memory_tile_from lib n_idx n i (gs, ld, ng) = (gs', ld', ng')"
  shows "wf_leader n ld' \<and> coarser n ld ld' \<and> length gs' = n \<and>
         (\<forall>k. refs (gs' ! k) = refs (gs ! k))"
  using assms
proof (induction lib n_idx n i "(gs, ld, ng)" arbitrary: gs ld ng
    rule: group_common_shared_memory_tile_from.induct)
  case (1 lib n_idx n i gs ld ng)
  show ?case
  proof (cases "1 < ng \<and> i < n")
    case False
    then have "group_common_shared_memory_tile_from lib n_idx n i (gs, ld, ng) = (gs, ld, ng)"
      by (subst common_from_unfold) simp
    then have "(gs', ld', ng') = (gs, ld, ng)"
      using "1.prems"(3) by simp
    then show ?thesis using "1.prems"(1,2) by (simp add: coarser_refl)
  next
    case True
    show ?thesis
    proof (cases "ld ! i \<noteq> i \<or> shared_bound (gs ! i) = None")
      case skip: True
      have "group_common_shared_memory_tile_from lib n_idx n i (gs, ld, ng) =
          group_common_shared_memory_tile_from lib n_idx n (Suc i) (gs, ld, ng)"
        using True skip by (subst common_from_unfold) auto
      then have e: "group_common_shared_memory_tile_from lib n_idx n (Suc i) (gs, ld, ng) = (gs', ld', ng')"
        using "1.prems"(3) by simp
      from skip show ?thesis
      proof
        assume a: "ld ! i \<noteq> i"
        from "1.hyps"(1) [OF True a "1.prems"(1,2) e] show ?thesis .
      next
        assume a: "shared_bound (gs ! i) = None"
        show ?thesis
        proof (cases "ld ! i \<noteq> i")
          case True
          from "1.hyps"(1) [OF \<open>1 < ng \<and> i < n\<close> True "1.prems"(1,2) e] show ?thesis .
        next
          case False
          from "1.hyps"(2) [OF \<open>1 < ng \<and> i < n\<close> False a "1.prems"(1,2) e] show ?thesis .
        qed
      qed
    next
      case False
      obtain gs1 ld1 ng1 where sc: "common_tile_scan lib n_idx i i (gs, ld, ng) = (gs1, ld1, ng1)"
        by (metis prod_cases3)
      have "group_common_shared_memory_tile_from lib n_idx n i (gs, ld, ng) =
          group_common_shared_memory_tile_from lib n_idx n (Suc i) (gs1, ld1, ng1)"
        using True False sc by (subst common_from_unfold) auto
      then have e: "group_common_shared_memory_tile_from lib n_idx n (Suc i) (gs1, ld1, ng1) = (gs', ld', ng')"
        using "1.prems"(3) by simp
      have li: "i < n" "ld ! i = i" "i \<le> i" using True False by auto
      from common_scan_inv [OF "1.prems"(1) li "1.prems"(2) sc]
      have r: "wf_leader n ld1" "coarser n ld ld1" "length gs1 = n"
        "\<forall>k. refs (gs1 ! k) = refs (gs ! k)" by simp_all
      have f: "\<not> ld ! i \<noteq> i" "shared_bound (gs ! i) \<noteq> None" using False by auto
      from "1.hyps"(3) [OF True f sc r(1,3) e]
      have r2: "wf_leader n ld'" "coarser n ld1 ld'" "length gs' = n"
        "\<forall>k. refs (gs' ! k) = refs (gs1 ! k)" by simp_all
      show ?thesis using r2 r coarser_trans [OF r(2) r2(2)] by simp
    qed
  qed
qed

lemma wf_leaderD: "wf_leader n ld \<Longrightarrow> length ld = n" "wf_leader n ld \<Longrightarrow> k < n \<Longrightarrow> ld ! k \<le> k"
  by (simp_all add: wf_leader_def)

lemma small_root:
  assumes "wf_leader n ld" "k < n" "k < 2"
  shows "ld ! k = root ld k"
proof (cases "ld ! k < k")
  case False
  then have "ld ! k = k" using wf_leaderD(2) [OF assms(1,2)] by simp
  then show ?thesis using root_self [OF False] by simp
next
  case True
  then have k: "k = 1" "ld ! k = 0" using assms(3) by auto
  have "root ld k = root ld 0" using root_step [OF True] k by simp
  also have "\<dots> = 0" using root_self [of ld 0] by simp
  finally show ?thesis using k by simp
qed

lemma compress_prefix:
  assumes wf: "wf_leader n ld"
  shows "m \<le> n \<Longrightarrow>
     length (fold (\<lambda>i ld. ld[i := ld ! (ld ! i)]) [2..<m] ld) = n \<and>
     (\<forall>k<n. k < max m 2 \<longrightarrow> fold (\<lambda>i ld. ld[i := ld ! (ld ! i)]) [2..<m] ld ! k = root ld k) \<and>
     (\<forall>k<n. max m 2 \<le> k \<longrightarrow> fold (\<lambda>i ld. ld[i := ld ! (ld ! i)]) [2..<m] ld ! k = ld ! k)"
proof (induction m)
  case 0
  then show ?case using small_root [OF wf] wf_leaderD(1) [OF wf] by simp
next
  case (Suc m)
  let ?f = "\<lambda>i ld. ld[i := ld ! (ld ! i)]"
  let ?r = "fold ?f [2..<m] ld"
  have ih: "length ?r = n" "\<forall>k<n. k < max m 2 \<longrightarrow> ?r ! k = root ld k"
    "\<forall>k<n. max m 2 \<le> k \<longrightarrow> ?r ! k = ld ! k"
    using Suc by simp_all
  show ?case
  proof (cases "m < 2")
    case True
    then have e: "[2..<Suc m] = [2..<m]" "max (Suc m) 2 = max m 2" by auto
    show ?thesis unfolding e using ih by simp
  next
    case False
    then have m: "2 \<le> m" "m < n" "max m 2 = m" "max (Suc m) 2 = Suc m" using Suc.prems by auto
    have e: "fold ?f [2..<Suc m] ld = ?r[m := ?r ! (?r ! m)]" using m by simp
    have rm: "?r ! m = ld ! m" using ih(3) m by simp
    have le: "ld ! m \<le> m" using wf_leaderD(2) [OF wf m(2)] .
    have v: "?r ! (?r ! m) = root ld m"
    proof (cases "ld ! m < m")
      case True
      then have "?r ! (ld ! m) = root ld (ld ! m)" using ih(2) m by simp
      then show ?thesis using rm root_step [OF True] by simp
    next
      case False
      then have "ld ! m = m" using le by simp
      then show ?thesis using rm root_self [OF False] by simp
    qed
    have a: "length (?r[m := ?r ! (?r ! m)]) = n" using ih(1) by simp
    have b: "\<forall>k<n. k < Suc m \<longrightarrow> ?r[m := ?r ! (?r ! m)] ! k = root ld k"
    proof (intro allI impI)
      fix k assume k: "k < n" "k < Suc m"
      show "?r[m := ?r ! (?r ! m)] ! k = root ld k"
      proof (cases "k = m")
        case True then show ?thesis using v ih(1) m by simp
      next
        case False
        then have "k < m" using k by simp
        then show ?thesis using ih(2) k m False by simp
      qed
    qed
    have c: "\<forall>k<n. Suc m \<le> k \<longrightarrow> ?r[m := ?r ! (?r ! m)] ! k = ld ! k"
      using ih(3) m by simp
    show ?thesis unfolding e m(4) using a b c by blast
  qed
qed

lemma compress_leaders_root:
  assumes "wf_leader n ld" "k < n"
  shows "compress_leaders n ld ! k = root ld k"
proof -
  have "k < max n 2" using assms(2) by simp
  then show ?thesis
    using compress_prefix [OF assms(1), of n] assms(2) unfolding compress_leaders_def by simp
qed

lemma compress_leaders_length:
  assumes "wf_leader n ld"
  shows "length (compress_leaders n ld) = n"
  using compress_prefix [OF assms, of n] unfolding compress_leaders_def by simp

lemma set_group_fold_length:
  "length (fold (set_group v) rs a) = length a"
  by (induction rs arbitrary: a) (simp_all add: set_group_def)

lemma set_group_fold_other:
  "x \<notin> set rs \<Longrightarrow> fold (set_group v) rs a ! x = a ! x"
  by (induction rs arbitrary: a) (auto simp: set_group_def)

lemma set_group_fold_member:
  "x \<in> set rs \<Longrightarrow> x < length a \<Longrightarrow> ref_group (fold (set_group v) rs a ! x) = v"
proof (induction rs arbitrary: a)
  case Nil
  then show ?case by simp
next
  case (Cons r rs)
  show ?case
  proof (cases "x \<in> set rs")
    case True
    have "x < length (set_group v r a)" using Cons.prems(2) by (simp add: set_group_def)
    from Cons.IH [OF True this] show ?thesis by simp
  next
    case False
    then have "x = r" using Cons.prems by simp
    then have "set_group v r a ! x = (a ! x)\<lparr>ref_group := v\<rparr>"
      using Cons.prems(2) by (simp add: set_group_def)
    then show ?thesis using set_group_fold_other [OF False, of v "set_group v r a"] by simp
  qed
qed

lemma ex_fold:
  assumes ld: "\<forall>k<n. leader ! k \<le> k \<and> leader ! (leader ! k) = leader ! k"
    and inj: "\<forall>k<n. \<forall>k'<n. hd (refs (gs ! k)) = hd (refs (gs ! k')) \<longrightarrow> k = k'"
    and rng: "\<forall>k<n. hd (refs (gs ! k)) < length arefs0"
  shows "i \<le> n \<Longrightarrow> fold (ex_step n gs leader) [0..<i] (0, arefs0, []) = (j, arefs, out) \<Longrightarrow>
     j = ordinal leader i \<and> length arefs = length arefs0 \<and>
     (\<forall>k<n. leader ! k < i \<longrightarrow>
        ref_group (arefs ! hd (refs (gs ! k))) = int (ordinal leader (leader ! k)))"
proof (induction i arbitrary: j arefs out)
  case 0
  then show ?case by (simp add: ordinal_def)
next
  case (Suc i)
  obtain j1 arefs1 out1 where f: "fold (ex_step n gs leader) [0..<i] (0, arefs0, []) = (j1, arefs1, out1)"
    by (metis prod_cases3)
  have i: "i < n" "i \<le> n" using Suc.prems by simp_all
  from Suc.IH [OF i(2) f] have ih: "j1 = ordinal leader i" "length arefs1 = length arefs0"
    "\<forall>k<n. leader ! k < i \<longrightarrow>
        ref_group (arefs1 ! hd (refs (gs ! k))) = int (ordinal leader (leader ! k))" by simp_all
  have st: "ex_step n gs leader i (j1, arefs1, out1) = (j, arefs, out)"
    using Suc.prems(2) f by simp
  show ?case
  proof (cases "leader ! i = i")
    case False
    then have e: "j = j1" "arefs = arefs1" using st by (simp_all add: ex_step_def)
    have o: "ordinal leader (Suc i) = ordinal leader i" using False by (simp add: ordinal_def)
    have "ref_group (arefs ! hd (refs (gs ! k))) = int (ordinal leader (leader ! k))"
      if k: "k < n" "leader ! k < Suc i" for k
    proof -
      have "leader ! k \<noteq> i" using ld k(1) False by metis
      then have "leader ! k < i" using k by simp
      then show ?thesis using ih(3) k e by simp
    qed
    then show ?thesis using e o ih by simp
  next
    case True
    let ?members = "filter (\<lambda>k. leader ! k = i) [i..<n]"
    let ?rs = "map (\<lambda>k. hd (refs (gs ! k))) ?members"
    have e: "j = Suc j1" "arefs = fold (set_group (int j1)) ?rs arefs1"
      using st True unfolding ex_step_def Let_def set_group_def by simp_all
    have o: "ordinal leader (Suc i) = Suc (ordinal leader i)" using True by (simp add: ordinal_def)
    have len: "length arefs = length arefs0"
      unfolding e(2) set_group_fold_length using ih(2) .
    have "ref_group (arefs ! hd (refs (gs ! k))) = int (ordinal leader (leader ! k))"
      if k: "k < n" "leader ! k < Suc i" for k
    proof (cases "leader ! k = i")
      case lk: True
      have "i \<le> k" using ld k(1) lk by auto
      then have "k \<in> set ?members" using k(1) lk by simp
      then have m: "hd (refs (gs ! k)) \<in> set ?rs" by (simp add: image_iff) blast
      have "hd (refs (gs ! k)) < length arefs1" using rng k(1) ih(2) by simp
      from set_group_fold_member [OF m this, of "int j1"] show ?thesis
        unfolding e(2) using lk ih(1) by simp
    next
      case lk: False
      then have lt: "leader ! k < i" using k by simp
      have "hd (refs (gs ! k)) \<notin> set ?rs"
      proof
        assume "hd (refs (gs ! k)) \<in> set ?rs"
        then obtain k' where k': "k' < n" "leader ! k' = i" "hd (refs (gs ! k)) = hd (refs (gs ! k'))"
          by auto
        then have "k = k'" using inj k(1) by blast
        then show False using k' lk by simp
      qed
      from set_group_fold_other [OF this, of "int j1" arefs1] show ?thesis
        unfolding e(2) using ih(3) k(1) lt by simp
    qed
    then show ?thesis using e o ih(1) len by simp
  qed
qed

lemma extract_array_groups_ref_group:
  assumes wf: "wf_leader n ld"
    and inj: "\<forall>k<n. \<forall>k'<n. hd (refs (gs ! k)) = hd (refs (gs ! k')) \<longrightarrow> k = k'"
    and rng: "\<forall>k<n. hd (refs (gs ! k)) < length (array_refs array)"
    and k: "k < n"
  shows "ref_group (array_refs (extract_array_groups array n gs ld ng) ! hd (refs (gs ! k))) =
     int (ordinal (compress_leaders n ld) (root ld k))"
proof -
  let ?leader = "compress_leaders n ld"
  obtain j arefs out where
    f: "fold (ex_step n gs ?leader) [0..<n] (0, array_refs array, []) = (j, arefs, out)"
    by (metis prod_cases3)
  have e: "array_refs (extract_array_groups array n gs ld ng) = arefs"
    using f unfolding extract_array_groups_def ex_step_def Let_def by simp
  have r: "?leader ! m = root ld m" if "m < n" for m
    using compress_leaders_root [OF wf that] .
  have ldp: "\<forall>m<n. ?leader ! m \<le> m \<and> ?leader ! (?leader ! m) = ?leader ! m"
  proof (intro allI impI)
    fix m assume m: "m < n"
    have a: "root ld m \<le> m" using root_le .
    then have b: "root ld m < n" using m by simp
    have "\<not> ld ! (root ld m) < root ld m" using root_is_leader .
    then have "root ld (root ld m) = root ld m" using root_self by simp
    then show "?leader ! m \<le> m \<and> ?leader ! (?leader ! m) = ?leader ! m"
      using r [OF m] r [OF b] a by simp
  qed
  have "root ld k < n" using root_le [of ld k] k by simp
  then have "?leader ! k < n" using r [OF k] by simp
  with ex_fold [OF ldp inj rng, of n j arefs out] f k
  have "ref_group (arefs ! hd (refs (gs ! k))) = int (ordinal ?leader (?leader ! k))" by simp
  then show ?thesis using e r [OF k] by simp
qed

lemma compute_group_shared_bound_refs:
  "refs (compute_group_shared_bound lib n_idx g) = refs g"
  by (simp add: compute_group_shared_bound_def split: prod.splits)

lemma update_keeps_refs:
  assumes "refs g' = refs (gs ! i)"
  shows "refs (gs[i := g'] ! k) = refs (gs ! k)"
proof (cases "i < length gs \<and> k = i")
  case True
  then show ?thesis using assms by simp
next
  case False
  then show ?thesis by (cases "i < length gs") (auto simp: list_update_beyond)
qed

lemma bounds_fold_props:
  "length (fold (\<lambda>i gs. if ld ! i = i
                 then gs[i := compute_group_shared_bound lib n_idx (gs ! i)]
                 else gs) xs gs) = length gs \<and>
   (\<forall>k. refs (fold (\<lambda>i gs. if ld ! i = i
                 then gs[i := compute_group_shared_bound lib n_idx (gs ! i)]
                 else gs) xs gs ! k) = refs (gs ! k))"
proof (induction xs arbitrary: gs)
  case Nil
  then show ?case by simp
next
  case (Cons i xs)
  let ?g = "if ld ! i = i then gs[i := compute_group_shared_bound lib n_idx (gs ! i)] else gs"
  have a: "length ?g = length gs" by simp
  have b: "refs (?g ! k) = refs (gs ! k)" for k
    using update_keeps_refs [OF compute_group_shared_bound_refs] by simp
  show ?case using Cons.IH [of ?g] a b by simp
qed

lemma populate_props:
  fixes arefs :: "'x cuda_stmt_access list" and sched :: "'x isl_union_map"
  defines "keys \<equiv> filter (active_ref arefs sched) [0..<length arefs]"
  shows "length (populate_array_references arefs sched) = length keys"
    and "k < length keys \<Longrightarrow>
        populate_array_references arefs sched ! k = singleton_group arefs sched (keys ! k)"
    and "distinct keys"
    and "k < length keys \<Longrightarrow> keys ! k < length arefs"
    and "a < length arefs \<Longrightarrow> active_ref arefs sched a \<Longrightarrow> \<exists>k<length keys. keys ! k = a"
proof -
  show "length (populate_array_references arefs sched) = length keys"
    by (simp add: populate_eq keys_def)
  show "k < length keys \<Longrightarrow>
        populate_array_references arefs sched ! k = singleton_group arefs sched (keys ! k)"
    by (simp add: populate_eq keys_def)
  show "distinct keys" by (simp add: keys_def)
  show "k < length keys \<Longrightarrow> keys ! k < length arefs"
  proof -
    assume "k < length keys"
    then have "keys ! k \<in> set keys" by simp
    then show ?thesis by (simp add: keys_def)
  qed
  show "a < length arefs \<Longrightarrow> active_ref arefs sched a \<Longrightarrow> \<exists>k<length keys. keys ! k = a"
  proof -
    assume "a < length arefs" "active_ref arefs sched a"
    then have "a \<in> set keys" by (simp add: keys_def)
    then show ?thesis by (simp add: in_set_conv_nth)
  qed
qed


section \<open>Facts about the promotion pass\<close>

lemma next_map_unit_step: "(p, s, s') \<in> next_map len pos \<longleftrightarrow> unit_step len pos s s'"
  by (simp add: next_map_iff unit_step_def)

lemma access_is_coalesced_iff:
  "access_is_coalesced gen n acc \<longleftrightarrow>
     (\<forall>p s s' a a'.
        (p, s, a) \<in> isl_union_map_apply_domain acc (tiled_sched gen) \<and>
        (p, s', a') \<in> isl_union_map_apply_domain acc (tiled_sched gen) \<and>
        unit_step (tiled_len gen) (int (shared_len gen + n_block gen) - 1) s s'
        \<longrightarrow> unit_step n (int n - 1) a a')"
  unfolding access_is_coalesced_def Let_def isl_map_is_subset_def
  by (auto simp add: apply_domain_iff [where r = "next_map len pos" for len pos]
      apply_range_iff next_map_unit_step subset_iff) blast+

lemma identity_access_coalesced:
  assumes pos: "0 < shared_len gen + n_block gen" "shared_len gen + n_block gen \<le> tiled_len gen"
    and ident: "\<forall>(p, s, a) \<in> isl_union_map_apply_domain acc (tiled_sched gen).
                  a = [s ! (shared_len gen + n_block gen - 1)]"
  shows "access_is_coalesced gen 1 acc"
  unfolding access_is_coalesced_iff
proof (intro allI impI, elim conjE)
  fix p s s' a a'
  let ?k = "shared_len gen + n_block gen - 1"
  assume a: "(p, s, a) \<in> isl_union_map_apply_domain acc (tiled_sched gen)"
    and a': "(p, s', a') \<in> isl_union_map_apply_domain acc (tiled_sched gen)"
    and st: "unit_step (tiled_len gen) (int (shared_len gen + n_block gen) - 1) s s'"
  from ident a have 1: "a = [s ! ?k]" by blast
  from ident a' have 2: "a' = [s' ! ?k]" by blast
  from pos have k: "?k < tiled_len gen" "int ?k = int (shared_len gen + n_block gen) - 1" by auto
  from st k have "s' ! ?k = s ! ?k + 1" unfolding unit_step_def by auto
  with 1 2 show "unit_step 1 (int 1 - 1) a a'" by (simp add: unit_step_def)
qed

lemma thread_access: "group_access_relation thread_array thread_group True True
    = {([], 0, [0]), ([], 1, [1])}"
  by (simp add: group_access_relation_def thread_array_def thread_group_def)

lemma thread_tiled: "isl_union_map_apply_domain {([], 0::nat, [0::int]), ([], 1, [1])} (tiled_sched thread_gen)
   = {([], [0], [0]), ([], [1], [1])}"
  by (auto simp add: apply_domain_iff thread_gen_def)


subsection \<open>The kernel with reuse\<close>

lemma point_tile:
  "can_tile_for_shared_memory point_library (Suc 0) (Some acc) (create_bound_list (Suc 0)) =
     (1, [\<lparr>b_size = 1,
           b_lb = Some \<lparr>e_constant = 0, e_param = [], e_set = [0], e_den = 1\<rparr>,
           b_stride = - 1, b_shift = None, b_shift_map = None\<rparr>])"
  by (simp add: can_tile_for_shared_memory_def create_bound_list_def compute_array_dim_size_def
      check_stride_def point_library_def check_stride_constraint_def Let_def
      compute_size_in_direction_def isl_constraint_involves_divs_def set_coefficients_def
      isl_constraint_get_bound_def)


lemma reuse_scheduled:
  "isl_union_map_apply_domain {([], 0::nat, [0::int]), ([], Suc 0, [0])} reuse_sched = {([], [], [0])}"
  by (auto simp add: apply_domain_iff reuse_sched_def)

lemma reuse_populated:
  "populate_array_references (array_refs reuse_array) reuse_sched =
     [\<lparr>nr = 0, access = Some {([], [], [0])}, g_write = False,
       shared_bound = None, private_bound = None, n_ref = 0, refs = [0]\<rparr>]"
  by (simp add: populate_array_references_def reuse_array_def reuse_scheduled Let_def
      isl_map_is_empty_def)

lemma reuse_grouped:
  "group_array_references point_library (\<lambda>k. 0) reuse_array reuse_sched =
     reuse_array\<lparr>array_refs :=
        [\<lparr>ref_read = True, ref_write = False,
          ref_access = {([], 0, [0]), ([], 1, [0])}, ref_group = 0\<rparr>],
       n_group := 1,
       groups := [\<lparr>nr = 0, access = Some {([], [], [0])}, g_write = False,
         shared_bound = Some [\<lparr>b_size = 1,
           b_lb = Some \<lparr>e_constant = 0, e_param = [], e_set = [0], e_den = 1\<rparr>,
           b_stride = - 1, b_shift = None, b_shift_map = None\<rparr>],
         private_bound = None, n_ref = 1, refs = [0]\<rparr>]\<rparr>"
  unfolding group_array_references_def reuse_populated
  by (simp add: group_overlapping_writes_def Let_def compute_group_shared_bound_def point_tile
      group_common_shared_memory_tile_def group_common_shared_memory_tile_from.simps
      extract_array_groups_def compress_leaders_def reuse_array_def)


lemma reuse_access:
  "group_access_relation
     (group_array_references point_library (\<lambda>k. 0) reuse_array reuse_sched)
     \<lparr>nr = 0, access = Some {([], [], [0])}, g_write = False,
         shared_bound = sb, private_bound = None, n_ref = Suc 0, refs = [0]\<rparr> True True =
   {([], 0, [0]), ([], Suc 0, [0])}"
  unfolding reuse_grouped by (simp add: group_access_relation_def reuse_array_def)

lemma reuse_not_injective:
  "\<not> isl_union_map_is_injective {([], 0::nat, [0::int]), ([], Suc 0, [0])}"
  by (simp add: isl_union_map_is_injective_def)

lemma reuse_shared:
  "isl_union_map_apply_domain {([], 0::nat, [0::int]), ([], Suc 0, [0])} (shared_sched reuse_gen)
     = {([], [], [0])}"
  by (simp add: reuse_gen_def reuse_scheduled)

lemma reuse_bijective: "isl_map_is_bijective {([], [], [0::int])}"
  by (simp add: isl_map_is_bijective_def isl_map_is_single_valued_def
      isl_union_map_is_injective_def)

lemma reuse_privatized:
  "isl_union_map_apply_domain {([], [], [0::int])} (privatization reuse_gen) = {([], [], [0])}"
  by (auto simp add: apply_domain_iff reuse_gen_def)

lemma reuse_groups_eq:
  "reuse_groups =
     [\<lparr>nr = 0, access = Some {([], [], [0])}, g_write = False,
       shared_bound = Some [\<lparr>b_size = 1,
           b_lb = Some \<lparr>e_constant = 0, e_param = [], e_set = [0], e_den = 1\<rparr>,
           b_stride = - 1, b_shift = None, b_shift_map = None\<rparr>],
       private_bound = Some [\<lparr>b_size = 1,
           b_lb = Some \<lparr>e_constant = 0, e_param = [], e_set = [0], e_den = 1\<rparr>,
           b_stride = - 1, b_shift = None, b_shift_map = None\<rparr>],
       n_ref = 1, refs = [0]\<rparr>]"
proof -
  have "groups (group_array_references point_library (\<lambda>k. 0) reuse_array reuse_sched) =
     [\<lparr>nr = 0, access = Some {([], [], [0])}, g_write = False,
         shared_bound = Some [\<lparr>b_size = 1,
           b_lb = Some \<lparr>e_constant = 0, e_param = [], e_set = [0], e_den = 1\<rparr>,
           b_stride = - 1, b_shift = None, b_shift_map = None\<rparr>],
         private_bound = None, n_ref = Suc 0, refs = [0]\<rparr>]"
    by (simp add: reuse_grouped)
  moreover have "n_index (group_array_references point_library (\<lambda>k. 0) reuse_array reuse_sched) = Suc 0"
    unfolding reuse_grouped by (simp add: reuse_array_def)
  ultimately show ?thesis
    unfolding reuse_groups_def compute_private_size_def
    by (simp add: check_private_group_access_def reuse_access reuse_not_injective Let_def
        reuse_shared reuse_bijective reuse_privatized point_tile)
qed

lemma reuse_group_eq:
  "reuse_group =
     \<lparr>nr = 0, access = Some {([], [], [0])}, g_write = False,
       shared_bound = Some [\<lparr>b_size = 1,
           b_lb = Some \<lparr>e_constant = 0, e_param = [], e_set = [0], e_den = 1\<rparr>,
           b_stride = - 1, b_shift = None, b_shift_map = None\<rparr>],
       private_bound = None, n_ref = Suc 0, refs = [0]\<rparr>"
  unfolding reuse_group_def reuse_grouped_array_def reuse_grouped by simp

lemma reuse_group_access:
  "group_access_relation reuse_grouped_array reuse_group True True =
     {([], 0, [0]), ([], Suc 0, [0])}"
  unfolding reuse_group_eq reuse_grouped_array_def by (rule reuse_access)

lemma reuse_n_index: "n_index reuse_grouped_array = Suc 0"
  unfolding reuse_grouped_array_def reuse_grouped by (simp add: reuse_array_def)


section \<open>Properties\<close>

subsection \<open>Arrays without index dimensions\<close>

text \<open>
  Claim C10.  For an array with zero index dimensions the loop of
  \<^verbatim>\<open>can_tile_for_shared_memory\<close> runs zero times, so the test answers \<open>1\<close> whatever the
  relation library does, and \<^verbatim>\<open>compute_group_shared_bound\<close> leaves the group with a
  (zero-length) shared bound list: the infeasible outcome cannot occur.
\<close>

theorem zero_dimensional_array_always_tiles:
  "can_tile_for_shared_memory lib 0 acc bounds = (1, bounds) \<and>
   shared_bound (compute_group_shared_bound lib 0 g) = Some []"
  by (simp add: can_tile_for_shared_memory_def compute_group_shared_bound_def
      create_bound_list_def)


subsection \<open>Conflict safety\<close>

text \<open>
  Claim C1.  Two references to the same array whose scheduled access relations intersect,
  one of them a write, end in the same final group: \<^verbatim>\<open>group_array_references\<close> stores the
  same ordinal in the \<open>group\<close> field of both, whatever the relation library answers and
  whatever the uninitialised leader array holds.
\<close>

theorem conflict_safety:
  fixes array :: "'x cuda_array_info"
  assumes a: "a < length (array_refs array)" and b: "b < length (array_refs array)"
    and w: "ref_write (array_refs array ! a) \<or> ref_write (array_refs array ! b)"
    and ov: "isl_union_map_apply_domain (ref_access (array_refs array ! a)) sched \<inter>
             isl_union_map_apply_domain (ref_access (array_refs array ! b)) sched \<noteq> {}"
  shows "ref_group (array_refs (group_array_references lib mem array sched) ! a) =
         ref_group (array_refs (group_array_references lib mem array sched) ! b)"
proof -
  let ?arefs = "array_refs array"
  let ?keys = "filter (active_ref ?arefs sched) [0..<length ?arefs]"
  let ?gs = "populate_array_references ?arefs sched"
  let ?n = "length ?gs"
  note pp = populate_props [where arefs = ?arefs and sched = sched]
  have n: "?n = length ?keys" using pp(1) .
  have act: "active_ref ?arefs sched a" "active_ref ?arefs sched b"
    using ov by (auto simp: active_ref_def)
  from pp(5) [OF a act(1)] obtain ka where ka: "ka < ?n" "?keys ! ka = a" using n by auto
  from pp(5) [OF b act(2)] obtain kb where kb: "kb < ?n" "?keys ! kb = b" using n by auto
  have g: "?gs ! k = singleton_group ?arefs sched (?keys ! k)" if "k < ?n" for k
    using pp(2) that n by simp
  have hdr: "hd (refs (?gs ! k)) = ?keys ! k" if "k < ?n" for k
    using g [OF that] by (simp add: singleton_group_def)
  have some: "\<forall>k<length ?gs. \<exists>T. access (?gs ! k) = Some T"
    using g by (simp add: singleton_group_def)
  have cf: "conflict ?gs ka kb"
    using w ov g [OF ka(1)] g [OF kb(1)] ka(2) kb(2)
    by (simp add: conflict_def singleton_group_def overlap_nonempty)
  obtain gs1 ld1 ng1 where
    ow: "group_overlapping_writes ?n ?gs (map mem [0..<?n]) = (gs1, ld1, ng1)"
    by (cases "group_overlapping_writes ?n ?gs (map mem [0..<?n])")
  have "length (map mem [0..<?n]) = length ?gs" by simp
  from group_overlapping_writes_inv [OF this some ow] have mi: "merged_inv ?gs ?n gs1 ld1" .
  note d = merged_invD [OF mi]
  have r1: "root ld1 ka = root ld1 kb" using d(6) ka(1) kb(1) cf by blast
  have wf1: "wf_leader ?n ld1" using d(2,4) by (simp add: wf_leader_def)
  let ?gs2 = "fold (\<lambda>i gs. if ld1 ! i = i
                 then gs[i := compute_group_shared_bound lib (n_index array) (gs ! i)]
                 else gs) [0..<?n] gs1"
  have p2: "length ?gs2 = ?n" "\<And>k. refs (?gs2 ! k) = refs (gs1 ! k)"
    using bounds_fold_props [of ld1 lib "n_index array" "[0..<?n]" gs1] d(1) by simp_all
  obtain gs3 ld3 ng3 where
    ct: "group_common_shared_memory_tile_from lib (n_index array) ?n 0 (?gs2, ld1, ng1) = (gs3, ld3, ng3)"
    by (cases "group_common_shared_memory_tile_from lib (n_index array) ?n 0 (?gs2, ld1, ng1)")
  from common_tile_inv [OF wf1 p2(1) ct]
  have p3: "wf_leader ?n ld3" "coarser ?n ld1 ld3" "length gs3 = ?n"
    "\<forall>k. refs (gs3 ! k) = refs (?gs2 ! k)" by simp_all
  have r3: "root ld3 ka = root ld3 kb"
    using p3(2) r1 ka(1) kb(1) unfolding coarser_def by blast
  have rf: "hd (refs (gs3 ! k)) = ?keys ! k" if "k < ?n" for k
    using p3(4) p2(2) d(7) hdr [OF that] that by simp
  have inj: "\<forall>k<?n. \<forall>k'<?n. hd (refs (gs3 ! k)) = hd (refs (gs3 ! k')) \<longrightarrow> k = k'"
  proof (intro allI impI)
    fix k k' assume "k < ?n" "k' < ?n" "hd (refs (gs3 ! k)) = hd (refs (gs3 ! k'))"
    then have "?keys ! k = ?keys ! k'" "k < length ?keys" "k' < length ?keys"
      using rf n by simp_all
    then show "k = k'" using pp(3) by (simp add: nth_eq_iff_index_eq)
  qed
  have rng: "\<forall>k<?n. hd (refs (gs3 ! k)) < length ?arefs"
    using rf pp(4) n by simp
  have e: "group_array_references lib mem array sched =
      extract_array_groups array ?n gs3 ld3 ng3"
    using ow ct by (simp add: group_array_references_def Let_def
        group_common_shared_memory_tile_def)
  have "ref_group (array_refs (extract_array_groups array ?n gs3 ld3 ng3) ! hd (refs (gs3 ! ka))) =
     int (ordinal (compress_leaders ?n ld3) (root ld3 ka))"
    by (rule extract_array_groups_ref_group [OF p3(1) inj rng ka(1)])
  moreover have "ref_group (array_refs (extract_array_groups array ?n gs3 ld3 ng3) ! hd (refs (gs3 ! kb))) =
     int (ordinal (compress_leaders ?n ld3) (root ld3 kb))"
    by (rule extract_array_groups_ref_group [OF p3(1) inj rng kb(1)])
  ultimately show ?thesis using e r3 rf [OF ka(1)] rf [OF kb(1)] ka(2) kb(2) by simp
qed

theorem conflict_safety_witness:
  "ref_group (array_refs
      (group_array_references unbounded_library (\<lambda>k. 7) example_array example_sched) ! 0) =
   ref_group (array_refs
      (group_array_references unbounded_library (\<lambda>k. 7) example_array example_sched) ! 2)"
proof -
  have "([], [], [2]) \<in>
      isl_union_map_apply_domain (ref_access (array_refs example_array ! 0)) example_sched \<inter>
      isl_union_map_apply_domain (ref_access (array_refs example_array ! 2)) example_sched"
    by (simp add: apply_domain_iff example_array_def example_sched_def)
  then have "isl_union_map_apply_domain (ref_access (array_refs example_array ! 0)) example_sched \<inter>
      isl_union_map_apply_domain (ref_access (array_refs example_array ! 2)) example_sched \<noteq> {}"
    by blast
  moreover have "0 < length (array_refs example_array)" "2 < length (array_refs example_array)"
    "ref_write (array_refs example_array ! 0) \<or> ref_write (array_refs example_array ! 2)"
    by (simp_all add: example_array_def)
  ultimately show ?thesis
    using conflict_safety [of 0 example_array 2 example_sched unbounded_library "\<lambda>k. 7"] by blast
qed

subsection \<open>What the conflict merge reaches\<close>




subsection \<open>Groups without reuse\<close>

text \<open>
  Claim C6.  For a group whose access relation is injective, \<^verbatim>\<open>check_private_group_access\<close>
  drops the shared bound when there is one and the access is coalesced, and returns the
  group as it was in every other case; in particular it never sets a private bound.
  \<^verbatim>\<open>access_is_coalesced\<close> answers yes exactly when, for any two points of the access
  relation over the tiled schedule whose schedule coordinates differ by one in the position
  wrapped over the last thread index, the array indices differ by one in the last
  position.  An access to a one-dimensional array whose index is that schedule coordinate
  is coalesced and ends without shared bound.
\<close>

theorem coalesced_demotion:
  assumes "isl_union_map_is_injective (group_access_relation array g True True)"
  shows "(let acc = group_access_relation array g True True;
              g' = check_private_group_access gen lib array g
          in g' = (if shared_bound g \<noteq> None \<and> access_is_coalesced gen (n_index array) acc
                   then g\<lparr>shared_bound := None\<rparr> else g) \<and>
             (access_is_coalesced gen (n_index array) acc \<longleftrightarrow>
                (\<forall>p s s' a a'.
                   (p, s, a) \<in> isl_union_map_apply_domain acc (tiled_sched gen) \<and>
                   (p, s', a') \<in> isl_union_map_apply_domain acc (tiled_sched gen) \<and>
                   unit_step (tiled_len gen) (int (shared_len gen + n_block gen) - 1) s s'
                   \<longrightarrow> unit_step (n_index array) (int (n_index array) - 1) a a')) \<and>
             (n_index array = 1 \<and> 0 < shared_len gen + n_block gen \<and>
              shared_len gen + n_block gen \<le> tiled_len gen \<and>
              (\<forall>(p, s, a) \<in> isl_union_map_apply_domain acc (tiled_sched gen).
                  a = [s ! (shared_len gen + n_block gen - 1)])
              \<longrightarrow> shared_bound g' = None \<and> private_bound g' = private_bound g))"
proof -
  let ?acc = "group_access_relation array g True True"
  have r: "check_private_group_access gen lib array g =
      (if shared_bound g \<noteq> None \<and> access_is_coalesced gen (n_index array) ?acc
       then g\<lparr>shared_bound := None\<rparr> else g)"
    using assms by (simp add: check_private_group_access_def Let_def)
  have i: "shared_bound (check_private_group_access gen lib array g) = None \<and>
           private_bound (check_private_group_access gen lib array g) = private_bound g"
    if "n_index array = 1" "0 < shared_len gen + n_block gen"
      "shared_len gen + n_block gen \<le> tiled_len gen"
      "\<forall>(p, s, a) \<in> isl_union_map_apply_domain ?acc (tiled_sched gen).
                  a = [s ! (shared_len gen + n_block gen - 1)]"
  proof -
    have "access_is_coalesced gen 1 ?acc"
      using that(2-4) by (rule identity_access_coalesced)
    then show ?thesis using that(1) by (simp add: r)
  qed
  show ?thesis
    unfolding Let_def
    apply (intro conjI)
      apply (rule r)
     apply (rule access_is_coalesced_iff)
    apply (intro impI, elim conjE)
    apply (rule i; assumption)
    done
qed

theorem coalesced_demotion_witness:
  "shared_bound thread_group \<noteq> None \<and>
   tier_of thread_group = Shared_tier \<and>
   tier_of (check_private_group_access thread_gen point_library thread_array thread_group) = Global_tier"
proof -
  have inj: "isl_union_map_is_injective (group_access_relation thread_array thread_group True True)"
    by (simp add: thread_access isl_union_map_is_injective_def)
  have "shared_bound (check_private_group_access thread_gen point_library thread_array thread_group) = None
    \<and> private_bound (check_private_group_access thread_gen point_library thread_array thread_group) = private_bound thread_group"
    using coalesced_demotion [OF inj, of thread_gen point_library,
        unfolded Let_def thread_access thread_tiled, THEN conjunct2, THEN conjunct2]
    by (simp add: thread_array_def thread_gen_def)
  then show ?thesis
    by (simp add: tier_of_def thread_group_def)
qed

subsection \<open>Tiers after promotion\<close>

text \<open>
  Claim C2, as stated: after the promotion pass no group holds both a private and a shared
  tile.  \<^verbatim>\<open>check_private_group_access\<close> stores the private tile without touching
  \<open>shared_bound\<close>.  In the kernel where two instances of a statement run by one thread read
  \<open>A[0]\<close>, the grouping pass gives the group a shared tile of size one and the promotion
  pass adds a private tile of size one.
\<close>

theorem tier_exclusivity_counterexample:
  "\<exists>g \<in> set reuse_groups. \<not> tier_exclusive g"
  by (simp add: reuse_groups_eq tier_exclusive_def)

text \<open>
  Claim C2, amended.  For a group that enters \<^verbatim>\<open>check_private_group_access\<close> without
  private tile: it leaves with both tiles exactly when it had a shared tile and is
  promoted; a promoted group keeps the shared tile it had, has reuse, and is printed as
  private; a group that is not promoted is shared or global according to its shared tile.
\<close>

theorem promotion_keeps_shared_tile:
  assumes "private_bound g = None"
  shows "(let g' = check_private_group_access gen lib array g
          in (\<not> tier_exclusive g' \<longleftrightarrow> shared_bound g \<noteq> None \<and> private_bound g' \<noteq> None) \<and>
             (private_bound g' \<noteq> None \<longrightarrow>
                shared_bound g' = shared_bound g \<and> tier_of g' = Private_tier \<and>
                \<not> isl_union_map_is_injective (group_access_relation array g True True)) \<and>
             (private_bound g' = None \<longrightarrow>
                tier_of g' = (if shared_bound g' \<noteq> None then Shared_tier else Global_tier)))"
  using assms
  by (auto simp add: check_private_group_access_def Let_def tier_exclusive_def tier_of_def
      split: prod.splits if_splits)

theorem promotion_keeps_shared_tile_witness:
  "shared_bound reuse_group \<noteq> None \<and>
   shared_bound (check_private_group_access reuse_gen point_library reuse_grouped_array reuse_group) =
     shared_bound reuse_group \<and>
   tier_of (check_private_group_access reuse_gen point_library reuse_grouped_array reuse_group) =
     Private_tier"
proof -
  have p: "private_bound reuse_group = None" by (simp add: reuse_group_eq)
  have "private_bound
      (check_private_group_access reuse_gen point_library reuse_grouped_array reuse_group) \<noteq> None"
    by (simp add: check_private_group_access_def reuse_group_access reuse_not_injective Let_def
        reuse_shared reuse_bijective reuse_privatized reuse_n_index point_tile)
  then show ?thesis
    using promotion_keeps_shared_tile [OF p, of reuse_gen point_library reuse_grouped_array]
    by (simp add: Let_def reuse_group_eq)
qed

subsection \<open>Groups with reuse\<close>



end
